theory Spec2Isabelle
  imports
    Main
    "HOL-Library.Multiset"
    "HOL-Library.AList"
    "HOL-Library.Char_ord"
    "HOL-Library.List_Lexorder"
    "HOL-Library.Product_Lexorder"
begin

section \<open>The binary min-heap of \<^verbatim>\<open>heapq\<close>\<close>

text \<open>
  \<^verbatim>\<open>space_extractor_modern.py\<close> keeps its top-K candidates in a Python list that it
  only touches through \<^verbatim>\<open>heapq.heappush\<close> and \<^verbatim>\<open>heapq.heappushpop\<close>. The list is an
  array-encoded binary tree (children of index \<open>k\<close> at \<open>2k+1\<close> and \<open>2k+2\<close>), and the order in
  which \<^verbatim>\<open>sorted\<close> later sees equal sizes is the order of that array, so the array
  algorithm of the standard library is modelled as it is written:
  \<^verbatim>\<open>
  def _siftdown(heap, startpos, pos):
      newitem = heap[pos]
      while pos > startpos:
          parentpos = (pos - 1) >> 1
          parent = heap[parentpos]
          if newitem < parent:
              heap[pos] = parent
              pos = parentpos
              continue
          break
      heap[pos] = newitem

  def _siftup(heap, pos):
      endpos = len(heap)
      startpos = pos
      newitem = heap[pos]
      childpos = 2*pos + 1
      while childpos < endpos:
          rightpos = childpos + 1
          if rightpos < endpos and not heap[childpos] < heap[rightpos]:
              childpos = rightpos
          heap[pos] = heap[childpos]
          pos = childpos
          childpos = 2*pos + 1
      heap[pos] = newitem
      _siftdown(heap, startpos, pos)

  def heappush(heap, item):
      heap.append(item)
      _siftdown(heap, 0, len(heap)-1)

  def heappushpop(heap, item):
      if heap and heap[0] < item:
          item, heap[0] = heap[0], item
          _siftup(heap, 0)
      return item
  \<close>
  Items are compared with \<open><\<close> only. The scan stores tuples \<^verbatim>\<open>(sz, fp)\<close>, which Python
  compares lexicographically: first the sizes, then the path strings code point by code
  point. \<open>Product_Lexorder\<close>, \<open>List_Lexorder\<close> and \<open>Char_ord\<close> give \<open>int \<times> string\<close> exactly
  that order. Every index read below is in range whenever the functions are entered the
  way \<^verbatim>\<open>heapq\<close> enters them (\<open>pos < length heap\<close>).
\<close>

function siftdown_loop :: "'a::linorder list \<Rightarrow> nat \<Rightarrow> nat \<Rightarrow> 'a \<Rightarrow> 'a list" where
  "siftdown_loop heap startpos pos newitem =
     (if pos > startpos then
        (let parentpos = (pos - 1) div 2;
             parent = heap ! parentpos
         in if newitem < parent
            then siftdown_loop (heap[pos := parent]) startpos parentpos newitem
            else heap[pos := newitem])
      else heap[pos := newitem])"
  by pat_completeness auto
termination
  by (relation "measure (\<lambda>(heap, startpos, pos, newitem). pos)") auto

definition siftdown :: "'a::linorder list \<Rightarrow> nat \<Rightarrow> nat \<Rightarrow> 'a list" where
  "siftdown heap startpos pos = siftdown_loop heap startpos pos (heap ! pos)"

function siftup_loop :: "'a::linorder list \<Rightarrow> nat \<Rightarrow> nat \<Rightarrow> 'a list \<times> nat" where
  "siftup_loop heap endpos pos =
     (let childpos = 2 * pos + 1
      in if childpos < endpos then
           (let rightpos = childpos + 1;
                childpos' = (if rightpos < endpos \<and> \<not> heap ! childpos < heap ! rightpos
                             then rightpos else childpos)
            in siftup_loop (heap[pos := heap ! childpos']) endpos childpos')
         else (heap, pos))"
  by pat_completeness auto
termination
  by (relation "measure (\<lambda>(heap, endpos, pos). endpos - pos)") (auto split: if_splits)

definition siftup :: "'a::linorder list \<Rightarrow> nat \<Rightarrow> 'a list" where
  "siftup heap pos =
     (let endpos = length heap;
          startpos = pos;
          newitem = heap ! pos;
          (heap', pos') = siftup_loop heap endpos pos
      in siftdown (heap'[pos' := newitem]) startpos pos')"

definition heappush :: "'a::linorder list \<Rightarrow> 'a \<Rightarrow> 'a list" where
  "heappush heap item = siftdown (heap @ [item]) 0 (length (heap @ [item]) - 1)"

text \<open>
  \<^verbatim>\<open>heappushpop\<close> returns the item that left the heap; the scan discards it, so only the
  new heap is kept here.
\<close>

definition heappushpop :: "'a::linorder list \<Rightarrow> 'a \<Rightarrow> 'a list" where
  "heappushpop heap item =
     (if heap \<noteq> [] \<and> heap ! 0 < item then siftup (heap[0 := item]) 0 else heap)"


section \<open>Paths and extension keys\<close>

text \<open>
  \<^verbatim>\<open>os.path.join(dirpath, name)\<close> for two components, as \<^verbatim>\<open>posixpath\<close> writes it: a
  component that starts with the separator replaces what came before, otherwise the
  components are glued with one separator unless the left one is empty or already ends
  with it.
\<close>

definition sep :: char where
  "sep = CHR ''/''"

definition path_join :: "string \<Rightarrow> string \<Rightarrow> string" where
  "path_join a b =
     (if b \<noteq> [] \<and> hd b = sep then b
      else if a = [] \<or> last a = sep then a @ b
      else a @ [sep] @ b)"

text \<open>
  \<^verbatim>\<open>Path(fp).name\<close> is the final component of the path: the text after the last
  separator, for the paths the scan builds (a directory path joined with the name of a
  directory entry, which is not empty and not a single dot; \<^verbatim>\<open>pathlib\<close> would drop such
  a component). \<^verbatim>\<open>Path(fp).suffix\<close> is
  \<^verbatim>\<open>
  name = self.name
  i = name.rfind('.')
  if 0 < i < len(name) - 1:
      return name[i:]
  else:
      return ''
  \<close>
  and \<^verbatim>\<open>rfind\<close> answers \<open>-1\<close> when the character does not occur.
\<close>

definition path_name :: "string \<Rightarrow> string" where
  "path_name p = rev (takeWhile (\<lambda>c. c \<noteq> sep) (rev p))"

definition rfind :: "string \<Rightarrow> char \<Rightarrow> int" where
  "rfind s c =
     (if c \<in> set s then int (length s) - 1 - int (length (takeWhile (\<lambda>d. d \<noteq> c) (rev s)))
      else - 1)"

definition suffix :: "string \<Rightarrow> string" where
  "suffix p =
     (let name = path_name p;
          i = rfind name (CHR ''.'')
      in if 0 < i \<and> i < int (length name) - 1 then drop (nat i) name else [])"

text \<open>
  A Python \<^verbatim>\<open>str\<close> is a sequence of code points, compared and searched code point by
  code point. A \<open>char\<close> stands for the code point with its number \<open>of_char\<close>, so the
  strings of this theory are the Python strings whose code points are below 256.
  \<^verbatim>\<open>str.lower()\<close> is Unicode-aware; on these strings it works code point by code point,
  and the code points it changes are the capital letters: \<^verbatim>\<open>A\<close> to \<^verbatim>\<open>Z\<close> (65 to 90) and
  the Latin-1 capitals 192 to 214 and 216 to 222 (215 is the multiplication sign). Each
  becomes the code point 32 above it; every other code point below 256 is its own lower
  case.
\<close>

definition is_upper :: "char \<Rightarrow> bool" where
  "is_upper c =
     (let n = of_char c :: nat
      in (65 \<le> n \<and> n \<le> 90) \<or> (192 \<le> n \<and> n \<le> 214) \<or> (216 \<le> n \<and> n \<le> 222))"

definition char_lower :: "char \<Rightarrow> char" where
  "char_lower c = (if is_upper c then char_of (of_char c + (32 :: nat)) else c)"

definition lower :: "string \<Rightarrow> string" where
  "lower s = map char_lower s"

text \<open>The key of line 133: \<^verbatim>\<open>Path(fp).suffix.lower() or "<no-ext>"\<close>.\<close>

definition ext_key :: "string \<Rightarrow> string" where
  "ext_key fp = (let e = lower (suffix fp) in if e = [] then ''<no-ext>'' else e)"

section \<open>The directory tree and \<^verbatim>\<open>os.walk\<close>\<close>

text \<open>
  The scan reads the file system through three primitives: the directory listing behind
  \<^verbatim>\<open>os.walk\<close>, the test \<^verbatim>\<open>os.path.islink(full) or os.path.ismount(full)\<close> on a
  subdirectory entry, and \<^verbatim>\<open>os.path.getsize(fp)\<close> on a file entry. A directory is its
  list of file entries and its list of subdirectory entries, in listing order. A file
  entry carries what \<^verbatim>\<open>getsize\<close> answers for it: \<open>Some n\<close>, or \<open>None\<close> when it raises
  \<^verbatim>\<open>OSError\<close> (\<^verbatim>\<open>PermissionError\<close> and \<^verbatim>\<open>FileNotFoundError\<close> are subclasses). A
  subdirectory entry carries what the link-or-mount test does on it: the entry is a plain
  directory (the test is false), a symbolic link or a mount point (the test is true), or
  the test itself raises. Every directory of the tree can be listed, and the tree is the
  same for every call that reads it.
\<close>

datatype dir_kind = Plain | Symlink | Mount | Check_Raises

datatype fs_dir =
  Dir "(string \<times> int option) list" "(string \<times> dir_kind \<times> fs_dir) list"

type_synonym file_entry = "string \<times> int option"
type_synonym dir_entry = "string \<times> dir_kind \<times> fs_dir"
type_synonym walk_item = "string \<times> dir_entry list \<times> file_entry list"

text \<open>
  \<^verbatim>\<open>os.walk(top, topdown=True)\<close> yields \<^verbatim>\<open>(dirpath, dirnames, filenames)\<close> for the top directory,
  lets the loop body edit \<^verbatim>\<open>dirnames\<close> in place, and then walks into each remaining
  name in order, except that with the default \<^verbatim>\<open>followlinks=False\<close> it never walks into
  a symbolic link. Both loop bodies of the source edit \<^verbatim>\<open>dirnames\<close> by keeping some of
  its entries in order (or leave it alone), so the edit is a predicate \<open>keep\<close> on the
  directory path and the entry.
\<close>

function os_walk :: "(string \<Rightarrow> dir_entry \<Rightarrow> bool) \<Rightarrow> string \<Rightarrow> fs_dir \<Rightarrow> walk_item list" where
  "os_walk keep dirpath (Dir filenames dirnames) =
     (dirpath, dirnames, filenames) #
     concat (map (\<lambda>d. case d of (name, kind, sub) \<Rightarrow>
                    if kind = Symlink then [] else os_walk keep (path_join dirpath name) sub)
                 (filter (keep dirpath) dirnames))"
  by pat_completeness auto
termination
proof (relation "measure (\<lambda>(keep, dirpath, d). size d)", goal_cases)
  case 1
  show ?case by simp
next
  case (2 keep dirpath filenames dirnames d name rest kind sub)
  then have "(name, kind, sub) \<in> set dirnames" by auto
  then have "size sub < Suc (size_list (size_prod (\<lambda>_. 0) (size_prod (\<lambda>_. 0) size)) dirnames)"
    by (induction dirnames) auto
  then show ?case by simp
qed

section \<open>The streaming scan\<close>

datatype cb_outcome = Returns | Raises_Exception

datatype scan_error = ZeroDivisionError

datatype terminal = Completed | Cancelled

datatype 'a flow = Next 'a | Return 'a

text \<open>
  The keyword arguments of \<^verbatim>\<open>collect_folder_stats_streaming\<close>. A progress callback is
  the outcome of each of its invocations, numbered from 0: it returns, or it raises an
  \<^verbatim>\<open>Exception\<close>. A cancel event is the answer of each \<^verbatim>\<open>is_set()\<close> call, numbered by the
  count of files processed when the call is made (the loop makes exactly one call before
  each file). The third callback argument, the elapsed wall-clock time, is left out.
\<close>

record scan_args =
  progress_callback :: "(nat \<Rightarrow> cb_outcome) option"
  total_estimate :: "int option"
  update_every :: int
  top_n :: int
  cancel_event :: "(nat \<Rightarrow> bool) option"

text \<open>
  The local variables of the scan. The two \<^verbatim>\<open>defaultdict(int)\<close> tables are association
  lists in insertion order, which is the order \<^verbatim>\<open>dict.items()\<close> iterates in.
  \<open>delivered\<close> is not a variable of the source: it logs the arguments
  \<^verbatim>\<open>(processed, total_estimate)\<close> of every call made to the progress callback.
\<close>

record scan_state =
  ext_counts :: "(string \<times> nat) list"
  ext_sizes :: "(string \<times> int) list"
  total_files :: nat
  total_size :: int
  top_heap :: "(int \<times> string) list"
  processed :: nat
  delivered :: "(nat \<times> int option) list"

definition init_state :: scan_state where
  "init_state = \<lparr>ext_counts = [], ext_sizes = [], total_files = 0, total_size = 0,
                 top_heap = [], processed = 0, delivered = []\<rparr>"

text \<open>\<^verbatim>\<open>d.get(k, 0)\<close>, which is also what reading a \<^verbatim>\<open>defaultdict(int)\<close> at \<open>k\<close> gives.\<close>

definition dict_get :: "(string \<times> 'v::zero) list \<Rightarrow> string \<Rightarrow> 'v" where
  "dict_get d k = (case map_of d k of None \<Rightarrow> 0 | Some v \<Rightarrow> v)"

text \<open>
  \<^verbatim>\<open>sorted(xs, key=f, reverse=True)\<close> and \<^verbatim>\<open>xs.sort(key=f, reverse=True)\<close>: Python's sort
  is stable and keeps elements with equal keys in their original order under
  \<^verbatim>\<open>reverse=True\<close> too, so it is the stable sort on the negated key.
\<close>

definition sorted_reverse :: "('a \<Rightarrow> int) \<Rightarrow> 'a list \<Rightarrow> 'a list" where
  "sorted_reverse f xs = sort_key (\<lambda>x. - f x) xs"

definition make_ext_summary ::
  "(string \<times> nat) list \<Rightarrow> (string \<times> int) list \<Rightarrow> (string \<times> nat \<times> int) list" where
  "make_ext_summary ec es =
     sorted_reverse (\<lambda>x. snd (snd x)) (map (\<lambda>(ext, cnt). (ext, cnt, dict_get es ext)) ec)"

definition heap_to_list :: "(int \<times> string) list \<Rightarrow> (int \<times> string) list" where
  "heap_to_list h = sorted_reverse fst h"

type_synonym scan_result =
  "nat \<times> int \<times> (string \<times> nat \<times> int) list \<times> (int \<times> string) list"

definition snapshot :: "scan_state \<Rightarrow> scan_result" where
  "snapshot st =
     (total_files st, total_size st, make_ext_summary (ext_counts st) (ext_sizes st),
      heap_to_list (top_heap st))"

text \<open>
  A call of the progress callback inside \<^verbatim>\<open>try: ... except Exception: pass\<close>: the call
  is made, and whatever it does the scan goes on.
\<close>

definition deliver :: "(nat \<Rightarrow> cb_outcome) \<Rightarrow> int option \<Rightarrow> scan_state \<Rightarrow> scan_state" where
  "deliver cb est st =
     (let st' = st\<lparr>delivered := delivered st @ [(processed st, est)]\<rparr>
      in case cb (length (delivered st)) of Returns \<Rightarrow> st' | Raises_Exception \<Rightarrow> st')"

text \<open>Lines 126 to 129: \<^verbatim>\<open>getsize\<close> inside \<^verbatim>\<open>try\<close>, with 0 when it raises.\<close>

definition read_size :: "file_entry \<Rightarrow> int" where
  "read_size f = (case snd f of Some n \<Rightarrow> n | None \<Rightarrow> 0)"

text \<open>Lines 125 to 140: the accumulation of one file; \<open>k\<close> is \<^verbatim>\<open>top_n\<close>.\<close>

definition accumulate :: "int \<Rightarrow> string \<Rightarrow> file_entry \<Rightarrow> scan_state \<Rightarrow> scan_state" where
  "accumulate k dirpath f st =
     (let fp = path_join dirpath (fst f);
          sz = read_size f;
          ext = ext_key fp
      in st\<lparr>total_files := total_files st + 1,
            total_size := total_size st + sz,
            ext_counts := AList.update ext (dict_get (ext_counts st) ext + 1) (ext_counts st),
            ext_sizes := AList.update ext (dict_get (ext_sizes st) ext + sz) (ext_sizes st),
            top_heap := (if int (length (top_heap st)) < k
                         then heappush (top_heap st) (sz, fp)
                         else heappushpop (top_heap st) (sz, fp))\<rparr>)"

text \<open>
  Lines 142 to 148. \<^verbatim>\<open>processed % update_every\<close> is evaluated only when a callback was
  given, and raises \<^verbatim>\<open>ZeroDivisionError\<close> when \<^verbatim>\<open>update_every\<close> is 0; nothing in the
  function catches that.
\<close>

definition report :: "scan_args \<Rightarrow> scan_state \<Rightarrow> scan_error + scan_state" where
  "report args st =
     (let st' = st\<lparr>processed := processed st + 1\<rparr>
      in case progress_callback args of
           None \<Rightarrow> Inr st'
         | Some cb \<Rightarrow>
             if update_every args = 0 then Inl ZeroDivisionError
             else if int (processed st') mod update_every args = 0
                  then Inr (deliver cb (total_estimate args) st')
                  else Inr st')"

definition is_cancelled :: "scan_args \<Rightarrow> scan_state \<Rightarrow> bool" where
  "is_cancelled args st =
     (case cancel_event args of None \<Rightarrow> False | Some is_set \<Rightarrow> is_set (processed st))"

text \<open>The inner loop, lines 120 to 148; \<open>Return\<close> is the early return of line 123.\<close>

fun scan_filenames ::
  "scan_args \<Rightarrow> string \<Rightarrow> file_entry list \<Rightarrow> scan_state \<Rightarrow> scan_error + scan_state flow" where
  "scan_filenames args dirpath [] st = Inr (Next st)"
| "scan_filenames args dirpath (f # fs) st =
     (if is_cancelled args st then Inr (Return st)
      else case report args (accumulate (top_n args) dirpath f st) of
             Inl e \<Rightarrow> Inl e
           | Inr st' \<Rightarrow> scan_filenames args dirpath fs st')"

text \<open>The outer loop over what \<^verbatim>\<open>os.walk\<close> yields.\<close>

fun scan_walk :: "scan_args \<Rightarrow> walk_item list \<Rightarrow> scan_state \<Rightarrow> scan_error + scan_state flow" where
  "scan_walk args [] st = Inr (Next st)"
| "scan_walk args ((dirpath, dirnames, filenames) # rest) st =
     (case scan_filenames args dirpath filenames st of
        Inl e \<Rightarrow> Inl e
      | Inr (Return st') \<Rightarrow> Inr (Return st')
      | Inr (Next st') \<Rightarrow> scan_walk args rest st')"

text \<open>
  Lines 109 to 118: an entry stays in \<^verbatim>\<open>dirnames\<close> when the link-or-mount test is false;
  it is dropped when the test is true and when the test raises.
\<close>

definition islink_or_ismount :: "dir_kind \<Rightarrow> unit + bool" where
  "islink_or_ismount k =
     (case k of Plain \<Rightarrow> Inr False | Symlink \<Rightarrow> Inr True | Mount \<Rightarrow> Inr True
      | Check_Raises \<Rightarrow> Inl ())"

definition scan_keeps :: "string \<Rightarrow> dir_entry \<Rightarrow> bool" where
  "scan_keeps dirpath d =
     (case islink_or_ismount (fst (snd d)) of
        Inl _ \<Rightarrow> False
      | Inr b \<Rightarrow> \<not> b)"

text \<open>
  What one call of the function does: the Python return value, which of the two
  \<^verbatim>\<open>return\<close> statements produced it (line 123 or line 159), and the calls made to the
  progress callback. Only \<open>returned\<close> reaches the caller.
\<close>

record scan_run =
  terminal :: terminal
  returned :: scan_result
  events :: "(nat \<times> int option) list"

definition finish :: "terminal \<Rightarrow> scan_state \<Rightarrow> scan_run" where
  "finish t st = \<lparr>terminal = t, returned = snapshot st, events = delivered st\<rparr>"

text \<open>Lines 150 to 155, the final update after the walk is exhausted.\<close>

definition final_update :: "scan_args \<Rightarrow> scan_state \<Rightarrow> scan_state" where
  "final_update args st =
     (case progress_callback args of
        None \<Rightarrow> st
      | Some cb \<Rightarrow> deliver cb (total_estimate args) st)"

definition collect_folder_stats_streaming ::
  "string \<Rightarrow> scan_args \<Rightarrow> fs_dir \<Rightarrow> scan_error + scan_run" where
  "collect_folder_stats_streaming folder args fs =
     (case scan_walk args (os_walk scan_keeps folder fs) init_state of
        Inl e \<Rightarrow> Inl e
      | Inr (Return st) \<Rightarrow> Inr (finish Cancelled st)
      | Inr (Next st) \<Rightarrow> Inr (finish Completed (final_update args st)))"

text \<open>Lines 161 to 166: the walk without any edit of \<^verbatim>\<open>dirnames\<close>.\<close>

definition quick_count_files :: "string \<Rightarrow> fs_dir \<Rightarrow> nat" where
  "quick_count_files path fs =
     foldl (\<lambda>count item. case item of (dirpath, dirnames, filenames) \<Rightarrow> count + length filenames)
           0 (os_walk (\<lambda>dirpath d. True) path fs)"


section \<open>Notions used to state the properties\<close>

text \<open>
  The heap property of \<^verbatim>\<open>heapq\<close>: no element is smaller than its parent. \<open>hole_inv h p\<close>
  is the property with position \<open>p\<close> taken out (its content is about to be overwritten):
  it holds between all other parent-child pairs and between the parent of \<open>p\<close> and the
  children of \<open>p\<close>.
\<close>

definition is_heap :: "'a::linorder list \<Rightarrow> bool" where
  "is_heap h = list_all (\<lambda>i. h ! ((i - 1) div 2) \<le> h ! i) [1..<length h]"

definition hole_inv :: "'a::linorder list \<Rightarrow> nat \<Rightarrow> bool" where
  "hole_inv h p \<longleftrightarrow>
     p < length h \<and>
     (\<forall>i. 0 < i \<and> i < length h \<and> i \<noteq> p \<and> (i - 1) div 2 \<noteq> p \<longrightarrow> h ! ((i - 1) div 2) \<le> h ! i) \<and>
     (\<forall>c. 0 < c \<and> c < length h \<and> (c - 1) div 2 = p \<and> 0 < p \<longrightarrow> h ! ((p - 1) div 2) \<le> h ! c)"

text \<open>
  The files the scan enumerates, in the order the nested iteration reaches them, each with
  the directory path it was found under.
\<close>

definition walk_files :: "walk_item list \<Rightarrow> (string \<times> file_entry) list" where
  "walk_files items =
     concat (map (\<lambda>item. case item of (dirpath, dirnames, filenames) \<Rightarrow>
                    map (Pair dirpath) filenames) items)"

definition enumerated :: "string \<Rightarrow> fs_dir \<Rightarrow> (string \<times> file_entry) list" where
  "enumerated folder fs = walk_files (os_walk scan_keeps folder fs)"

text \<open>The tuple \<^verbatim>\<open>(sz, fp)\<close> that the scan offers to the heap for a file.\<close>

definition heap_item :: "string \<times> file_entry \<Rightarrow> int \<times> string" where
  "heap_item df = (read_size (snd df), path_join (fst df) (fst (snd df)))"

text \<open>
  One pass through the loop body for a file that is not preceded by a cancellation
  (lines 125 to 148), when the body does not raise; and the state after the body has run
  for each file of a list in turn.
\<close>

definition step :: "scan_args \<Rightarrow> scan_state \<Rightarrow> string \<times> file_entry \<Rightarrow> scan_state" where
  "step args st df =
     (case report args (accumulate (top_n args) (fst df) (snd df) st) of
        Inr st' \<Rightarrow> st' | Inl e \<Rightarrow> st)"

definition state_after :: "scan_args \<Rightarrow> (string \<times> file_entry) list \<Rightarrow> scan_state" where
  "state_after args files = foldl (step args) init_state files"

text \<open>
  How many of \<open>n\<close> enumerated files are processed before the loop stops, when \<open>p\<close> files
  were processed before them: the \<^verbatim>\<open>is_set()\<close> call before each file decides.
\<close>

fun run_length :: "(nat \<Rightarrow> bool) option \<Rightarrow> nat \<Rightarrow> nat \<Rightarrow> nat" where
  "run_length ev p 0 = 0"
| "run_length ev p (Suc n) =
     (if (case ev of None \<Rightarrow> False | Some is_set \<Rightarrow> is_set p) then 0
      else Suc (run_length ev (Suc p) n))"

text \<open>The four components of the returned tuple.\<close>

definition total_files_of :: "scan_result \<Rightarrow> nat" where
  "total_files_of r = fst r"

definition total_size_of :: "scan_result \<Rightarrow> int" where
  "total_size_of r = fst (snd r)"

definition ext_summary_of :: "scan_result \<Rightarrow> (string \<times> nat \<times> int) list" where
  "ext_summary_of r = fst (snd (snd r))"

definition top_files_of :: "scan_result \<Rightarrow> (int \<times> string) list" where
  "top_files_of r = snd (snd (snd r))"

text \<open>The \<open>k\<close> largest elements of a list, largest first.\<close>

definition largest :: "nat \<Rightarrow> 'a::linorder list \<Rightarrow> 'a list" where
  "largest k xs = take k (rev (sort xs))"

text \<open>
  \<open>holds_largest k xs h\<close>: the list \<open>h\<close> holds \<open>min k (length xs)\<close> of the elements of
  \<open>xs\<close>, and nothing it leaves out is above anything it holds.
\<close>

definition holds_largest :: "nat \<Rightarrow> 'a::linorder list \<Rightarrow> 'a list \<Rightarrow> bool" where
  "holds_largest k xs h \<longleftrightarrow>
     mset h \<subseteq># mset xs \<and> length h = min k (length xs) \<and>
     (\<forall>a\<in>set h. \<forall>b\<in>#(mset xs - mset h). b \<le> a)"

text \<open>
  A small tree and arguments to run the scan on: four files in one directory, the two
  largest wanted, a callback that is called after every file and never raises, no
  cancel event.
\<close>

definition example_tree :: fs_dir where
  "example_tree =
     Dir [(''a.txt'', Some 10), (''b.txt'', Some 20), (''c.log'', Some 5), (''d'', Some 1)] []"

definition example_args :: scan_args where
  "example_args =
     \<lparr>progress_callback = Some (\<lambda>n. Returns), total_estimate = None, update_every = 1,
      top_n = 2, cancel_event = None\<rparr>"

text \<open>
  Variations of the example: a cancel event that is set once two files have been
  processed; a directory with a file whose size cannot be read; a callback that raises on
  every call; no callback and a cancel event that is set from the start.
\<close>

definition cancel_args :: scan_args where
  "cancel_args = example_args\<lparr>cancel_event := Some (\<lambda>n. 2 \<le> n)\<rparr>"

definition unreadable_tree :: fs_dir where
  "unreadable_tree = Dir [(''a.bin'', Some 3), (''locked.bin'', None)] []"

definition raising_args :: scan_args where
  "raising_args = example_args\<lparr>progress_callback := Some (\<lambda>n. Raises_Exception)\<rparr>"

definition preset_args :: scan_args where
  "preset_args = example_args\<lparr>progress_callback := None, cancel_event := Some (\<lambda>n. True)\<rparr>"

text \<open>
  A directory with a single file; arguments that keep only the largest file; a directory
  with two files of equal size.
\<close>

definition one_file_tree :: fs_dir where
  "one_file_tree = Dir [(''a.txt'', Some 10)] []"

definition keep_one_args :: scan_args where
  "keep_one_args = example_args\<lparr>top_n := 1\<rparr>"

definition tie_tree :: fs_dir where
  "tie_tree = Dir [(''a'', Some 5), (''b'', Some 5)] []"

text \<open>
  The extension key of an enumerated file, and the elements of a list in the order of
  their first occurrence.
\<close>

definition file_ext :: "string \<times> file_entry \<Rightarrow> string" where
  "file_ext df = ext_key (path_join (fst df) (fst (snd df)))"

definition first_seen :: "'a list \<Rightarrow> 'a list" where
  "first_seen xs = rev (remdups (rev xs))"

text \<open>A directory with two files of equal size and different extensions.\<close>

definition tie_ext_tree :: fs_dir where
  "tie_ext_tree = Dir [(''b.txt'', Some 5), (''a.log'', Some 5)] []"

text \<open>
  \<open>entries_all P fs\<close>: every subdirectory entry in the tree, at any depth, is of a kind
  that satisfies \<open>P\<close>.
\<close>

function entries_all :: "(dir_kind \<Rightarrow> bool) \<Rightarrow> fs_dir \<Rightarrow> bool" where
  "entries_all P (Dir filenames dirnames) =
     list_all (\<lambda>d. case d of (name, kind, sub) \<Rightarrow> P kind \<and> entries_all P sub) dirnames"
  by pat_completeness auto
termination
proof (relation "measure (\<lambda>(P, d). size d)", goal_cases)
  case 1
  show ?case by simp
next
  case (2 P filenames dirnames d name rest kind sub)
  then have "(name, kind, sub) \<in> set dirnames" by auto
  then have "size sub < Suc (size_list (size_prod (\<lambda>_. 0) (size_prod (\<lambda>_. 0) size)) dirnames)"
    by (induction dirnames) auto
  then show ?case by simp
qed

text \<open>
  Trees with one subdirectory holding one file: the subdirectory is a mount point; the
  link-or-mount test raises on it; it is a plain directory next to a file.
\<close>

definition mount_tree :: fs_dir where
  "mount_tree = Dir [] [(''vol'', Mount, Dir [(''x.bin'', Some 1)] [])]"

definition check_raises_tree :: fs_dir where
  "check_raises_tree = Dir [] [(''sub'', Check_Raises, Dir [(''x.bin'', Some 1)] [])]"

definition nested_tree :: fs_dir where
  "nested_tree = Dir [(''a.txt'', Some 10)] [(''sub'', Plain, Dir [(''x.bin'', Some 1)] [])]"

text \<open>
  A scan over \<open>n\<close> enumerated files is not cancelled when no cancel event was given, or
  when none of the \<^verbatim>\<open>is_set()\<close> calls made before the files answers true. The program
  itself always passes an event (lines 543 and 636), which the user may never set.
\<close>

definition not_cancelled :: "scan_args \<Rightarrow> nat \<Rightarrow> bool" where
  "not_cancelled args n =
     (case cancel_event args of
        None \<Rightarrow> True
      | Some is_set \<Rightarrow> list_all (\<lambda>i. \<not> is_set i) [0..<n])"

definition gui_args :: scan_args where
  "gui_args = example_args\<lparr>cancel_event := Some (\<lambda>n. False)\<rparr>"

declare siftdown_loop.simps [simp del] siftup_loop.simps [simp del]

section \<open>The heap operations keep the heap property\<close>

lemma is_heap_iff:
  "is_heap h \<longleftrightarrow> (\<forall>i. 0 < i \<and> i < length h \<longrightarrow> h ! ((i - 1) div 2) \<le> h ! i)"
  by (auto simp: is_heap_def list_all_iff)

lemma siftdown_loop_length [simp]: "length (siftdown_loop h s p x) = length h"
proof (induction h s p x rule: siftdown_loop.induct)
  case (1 heap startpos pos newitem)
  then show ?case by (subst siftdown_loop.simps) (simp add: Let_def)
qed

lemma siftdown_loop_mset:
  "p < length h \<Longrightarrow> mset (siftdown_loop h s p x) = mset (h[p := x])"
proof (induction h s p x rule: siftdown_loop.induct)
  case (1 heap startpos pos newitem)
  show ?case
  proof (cases "pos > startpos \<and> newitem < heap ! ((pos - 1) div 2)")
    case True
    then have lt: "(pos - 1) div 2 < pos" by auto
    with 1(2) have lt2: "(pos - 1) div 2 < length heap" by simp
    have "mset (siftdown_loop heap startpos pos newitem)
          = mset (siftdown_loop (heap[pos := heap ! ((pos - 1) div 2)]) startpos ((pos - 1) div 2) newitem)"
      using True by (subst siftdown_loop.simps) (simp add: Let_def)
    also have "\<dots> = mset (heap[pos := heap ! ((pos - 1) div 2), (pos - 1) div 2 := newitem])"
      using 1(1)[OF _ refl refl] True lt2 by simp
    also have "\<dots> = mset (heap[pos := newitem])"
      using lt lt2 1(2) by (simp add: mset_update nth_list_update)
    finally show ?thesis .
  next
    case False
    then show ?thesis by (subst siftdown_loop.simps) (auto simp: Let_def)
  qed
qed

lemma siftdown_loop_heap:
  "hole_inv h p \<Longrightarrow> (\<forall>c. 0 < c \<and> c < length h \<and> (c - 1) div 2 = p \<longrightarrow> x \<le> h ! c)
   \<Longrightarrow> is_heap (siftdown_loop h 0 p x)"
proof (induction h "0::nat" p x rule: siftdown_loop.induct)
  case (1 heap pos newitem)
  let ?par = "(pos - 1) div 2"
  show ?case
  proof (cases "pos > 0 \<and> newitem < heap ! ?par")
    case True
    then have lt: "?par < pos" by auto
    have nle: "newitem \<le> heap ! ?par" using True by (intro less_imp_le) simp
    have len: "pos < length heap" using 1(2) by (simp add: hole_inv_def)
    let ?h' = "heap[pos := heap ! ?par]"
    have A: "\<And>i. 0 < i \<Longrightarrow> i < length heap \<Longrightarrow> i \<noteq> pos \<Longrightarrow> (i - 1) div 2 \<noteq> pos
               \<Longrightarrow> heap ! ((i - 1) div 2) \<le> heap ! i"
      using 1(2) by (simp add: hole_inv_def)
    have inv': "hole_inv ?h' ?par"
      unfolding hole_inv_def
    proof (intro conjI allI impI)
      show "?par < length ?h'" using lt len by simp
    next
      fix i assume a: "0 < i \<and> i < length ?h' \<and> i \<noteq> ?par \<and> (i - 1) div 2 \<noteq> ?par"
      then have ip: "i \<noteq> pos" by auto
      show "?h' ! ((i - 1) div 2) \<le> ?h' ! i"
      proof (cases "(i - 1) div 2 = pos")
        case True
        with a ip 1(2) \<open>0 < pos \<and> _\<close> show ?thesis
          by (auto simp: hole_inv_def nth_list_update)
      next
        case False
        with a ip 1(2) show ?thesis
          by (auto simp: hole_inv_def nth_list_update)
      qed
    next
      fix c assume a: "0 < c \<and> c < length ?h' \<and> (c - 1) div 2 = ?par \<and> 0 < ?par"
      have pp: "heap ! ((?par - 1) div 2) \<le> heap ! ?par"
        using A[of ?par] a lt len by simp
      have ne: "(?par - 1) div 2 \<noteq> pos" using lt by auto
      show "?h' ! ((?par - 1) div 2) \<le> ?h' ! c"
      proof (cases "c = pos")
        case True
        then show ?thesis using pp ne len by (simp add: nth_list_update)
      next
        case False
        then have "heap ! ?par \<le> heap ! c"
          using A[of c] a lt by simp
        then show ?thesis using pp ne False len by (simp add: nth_list_update)
      qed
    qed
    have ch': "\<forall>c. 0 < c \<and> c < length ?h' \<and> (c - 1) div 2 = ?par \<longrightarrow> newitem \<le> ?h' ! c"
    proof (intro allI impI)
      fix c assume a: "0 < c \<and> c < length ?h' \<and> (c - 1) div 2 = ?par"
      show "newitem \<le> ?h' ! c"
      proof (cases "c = pos")
        case True
        then show ?thesis using nle len by simp
      next
        case False
        then have "heap ! ?par \<le> heap ! c"
          using A[of c] a lt by simp
        moreover note nle
        ultimately have "newitem \<le> heap ! c" by (rule order_trans[rotated])
        then show ?thesis using False by simp
      qed
    qed
    have "siftdown_loop heap 0 pos newitem = siftdown_loop ?h' 0 ?par newitem"
      using True by (subst siftdown_loop.simps) (simp add: Let_def)
    moreover have "is_heap (siftdown_loop ?h' 0 ?par newitem)"
      using 1(1)[OF _ refl refl _ inv' ch'] True by simp
    ultimately show ?thesis by (simp only:)
  next
    case False
    then have eq: "siftdown_loop heap 0 pos newitem = heap[pos := newitem]"
      by (subst siftdown_loop.simps) (auto simp: Let_def)
    have "is_heap (heap[pos := newitem])"
      unfolding is_heap_iff
    proof (intro allI impI)
      fix i assume a: "0 < i \<and> i < length (heap[pos := newitem])"
      show "heap[pos := newitem] ! ((i - 1) div 2) \<le> heap[pos := newitem] ! i"
      proof (cases "i = pos")
        case True
        then show ?thesis using a False by (auto simp: nth_list_update)
      next
        case ne: False
        show ?thesis
        proof (cases "(i - 1) div 2 = pos")
          case True
          then show ?thesis using a ne 1(3) by (auto simp: nth_list_update)
        next
          case False
          then show ?thesis using a ne 1(2) by (auto simp: hole_inv_def nth_list_update)
        qed
      qed
    qed
    with eq show ?thesis by (simp only:)
  qed
qed

lemma parent_iff: "0 < c \<Longrightarrow> (c - 1) div 2 = p \<longleftrightarrow> c = 2 * p + 1 \<or> c = 2 * p + (2::nat)"
  by (cases c) auto

lemma parent_less: "0 < (c::nat) \<Longrightarrow> (c - 1) div 2 < c"
  by simp

lemma hole_inv_update1:
  assumes "hole_inv h p"
  shows "hole_inv (h[p := y]) p"
  unfolding hole_inv_def
proof (intro conjI allI impI)
  show "p < length (h[p := y])" using assms by (simp add: hole_inv_def)
next
  fix i assume a: "0 < i \<and> i < length (h[p := y]) \<and> i \<noteq> p \<and> (i - 1) div 2 \<noteq> p"
  then have "h ! ((i - 1) div 2) \<le> h ! i" using assms by (simp add: hole_inv_def)
  then show "h[p := y] ! ((i - 1) div 2) \<le> h[p := y] ! i" using a by simp
next
  fix c assume a: "0 < c \<and> c < length (h[p := y]) \<and> (c - 1) div 2 = p \<and> 0 < p"
  then have "h ! ((p - 1) div 2) \<le> h ! c" using assms by (simp add: hole_inv_def)
  moreover have "c \<noteq> p" using a parent_less[of c] by auto
  moreover have "(p - 1) div 2 \<noteq> p" using a parent_less[of p] by auto
  ultimately show "h[p := y] ! ((p - 1) div 2) \<le> h[p := y] ! c" by simp
qed

lemma mset_update_swap:
  "p < length h \<Longrightarrow> c < length h \<Longrightarrow> p \<noteq> c \<Longrightarrow> mset (h[p := h ! c, c := y]) = mset (h[p := y])"
  by (simp add: mset_update nth_list_update)

lemma siftup_loop_props:
  "hole_inv h p \<Longrightarrow> e = length h \<Longrightarrow> siftup_loop h e p = (h', p') \<Longrightarrow>
     hole_inv h' p' \<and> length h' = length h \<and> length h' \<le> 2 * p' + 1 \<and>
     (\<forall>y. mset (h'[p' := y]) = mset (h[p := y]))"
proof (induction h e p arbitrary: h' p' rule: siftup_loop.induct)
  case (1 heap endpos pos)
  let ?l = "2 * pos + 1"
  let ?r = "2 * pos + 1 + 1"
  show ?case
  proof (cases "?l < endpos")
    case False
    then have "siftup_loop heap endpos pos = (heap, pos)"
      by (subst siftup_loop.simps) (simp add: Let_def)
    with 1(2,3,4) False show ?thesis by simp
  next
    case True
    define c where "c = (if ?r < endpos \<and> \<not> heap ! ?l < heap ! ?r then ?r else ?l)"
    let ?h2 = "heap[pos := heap ! c]"
    have step: "siftup_loop heap endpos pos = siftup_loop ?h2 endpos c"
      using True by (subst siftup_loop.simps) (simp add: Let_def c_def)
    have len: "pos < length heap" using 1(2) by (simp add: hole_inv_def)
    have clen: "c < length heap" using True 1(3) by (simp add: c_def)
    have cpos: "pos < c" by (simp add: c_def)
    have cpar: "(c - 1) div 2 = pos" by (simp add: c_def)
    have A: "\<And>i. 0 < i \<Longrightarrow> i < length heap \<Longrightarrow> i \<noteq> pos \<Longrightarrow> (i - 1) div 2 \<noteq> pos
               \<Longrightarrow> heap ! ((i - 1) div 2) \<le> heap ! i"
      using 1(2) by (simp add: hole_inv_def)
    have B: "\<And>d. 0 < d \<Longrightarrow> d < length heap \<Longrightarrow> (d - 1) div 2 = pos \<Longrightarrow> 0 < pos
               \<Longrightarrow> heap ! ((pos - 1) div 2) \<le> heap ! d"
      using 1(2) by (simp add: hole_inv_def)
    have cmin: "\<And>d. 0 < d \<Longrightarrow> d < length heap \<Longrightarrow> (d - 1) div 2 = pos \<Longrightarrow> heap ! c \<le> heap ! d"
    proof -
      fix d assume d: "0 < d" "d < length heap" "(d - 1) div 2 = pos"
      then have "d = ?l \<or> d = ?r" by arith
      then show "heap ! c \<le> heap ! d"
        using d(2) 1(3) by (auto simp: c_def)
    qed
    have inv2: "hole_inv ?h2 c"
      unfolding hole_inv_def
    proof (intro conjI allI impI)
      show "c < length ?h2" using clen by simp
    next
      fix i assume a: "0 < i \<and> i < length ?h2 \<and> i \<noteq> c \<and> (i - 1) div 2 \<noteq> c"
      show "?h2 ! ((i - 1) div 2) \<le> ?h2 ! i"
      proof (cases "i = pos")
        case True
        then have "(i - 1) div 2 \<noteq> pos" using a by auto
        moreover have "heap ! ((pos - 1) div 2) \<le> heap ! c"
          using B[of c] cpar clen cpos a True by simp
        ultimately show ?thesis using True len by simp
      next
        case ne: False
        show ?thesis
        proof (cases "(i - 1) div 2 = pos")
          case True
          then show ?thesis using cmin[of i] a ne len by simp
        next
          case False
          then show ?thesis using A[of i] a ne by simp
        qed
      qed
    next
      fix d assume a: "0 < d \<and> d < length ?h2 \<and> (d - 1) div 2 = c \<and> 0 < c"
      then have "d \<noteq> pos" using cpos by auto
      moreover have "heap ! c \<le> heap ! d"
        using A[of d] a cpos \<open>d \<noteq> pos\<close> by simp
      ultimately show "?h2 ! ((c - 1) div 2) \<le> ?h2 ! d"
        using cpar len by simp
    qed
    have eq: "siftup_loop ?h2 endpos c = (h', p')" using step 1(4) by simp
    have IH: "hole_inv h' p' \<and> length h' = length ?h2 \<and> length h' \<le> 2 * p' + 1 \<and>
              (\<forall>y. mset (h'[p' := y]) = mset (?h2[c := y]))"
      using 1(1)[OF refl True refl refl, folded c_def, OF inv2 _ eq] 1(3) by simp
    moreover have "\<And>y. mset (?h2[c := y]) = mset (heap[pos := y])"
      using mset_update_swap[OF len clen] cpos by simp
    ultimately show ?thesis by simp
  qed
qed

lemma heappush_heap: "is_heap h \<Longrightarrow> is_heap (heappush h x)"
proof -
  assume h: "is_heap h"
  have "hole_inv (h @ [x]) (length h)"
    unfolding hole_inv_def
  proof (intro conjI allI impI)
    show "length h < length (h @ [x])" by simp
  next
    fix i assume a: "0 < i \<and> i < length (h @ [x]) \<and> i \<noteq> length h \<and> (i - 1) div 2 \<noteq> length h"
    then have "i < length h" by simp
    moreover from this have "(i - 1) div 2 < length h" by simp
    ultimately show "(h @ [x]) ! ((i - 1) div 2) \<le> (h @ [x]) ! i"
      using h a by (simp add: is_heap_iff nth_append)
  next
    fix c assume "0 < c \<and> c < length (h @ [x]) \<and> (c - 1) div 2 = length h \<and> 0 < length h"
    then have False by auto
    then show "(h @ [x]) ! ((length h - 1) div 2) \<le> (h @ [x]) ! c" ..
  qed
  moreover have "\<forall>c. 0 < c \<and> c < length (h @ [x]) \<and> (c - 1) div 2 = length h \<longrightarrow> x \<le> (h @ [x]) ! c"
    by auto
  ultimately have "is_heap (siftdown_loop (h @ [x]) 0 (length h) x)"
    by (rule siftdown_loop_heap)
  then show ?thesis by (simp add: heappush_def siftdown_def)
qed

lemma heappush_mset: "mset (heappush h x) = add_mset x (mset h)"
  by (simp add: heappush_def siftdown_def siftdown_loop_mset)

lemma siftup_root:
  assumes "is_heap h" "h \<noteq> []"
  shows "is_heap (siftup (h[0 := x]) 0) \<and> mset (siftup (h[0 := x]) 0) = add_mset x (mset h - {#h ! 0#})"
proof -
  obtain h' p' where sl: "siftup_loop (h[0 := x]) (length (h[0 := x])) 0 = (h', p')"
    by (cases "siftup_loop (h[0 := x]) (length (h[0 := x])) 0") auto
  have inv0: "hole_inv (h[0 := x]) 0"
    using assms by (auto simp: hole_inv_def is_heap_iff nth_list_update)
  from siftup_loop_props[OF inv0 refl sl]
  have P: "hole_inv h' p'" "length h' = length h" "length h' \<le> 2 * p' + 1"
          "\<And>y. mset (h'[p' := y]) = mset (h[0 := y])"
    by simp_all
  have p': "p' < length h'" using P(1) by (simp add: hole_inv_def)
  let ?h2 = "h'[p' := x]"
  have eq: "siftup (h[0 := x]) 0 = siftdown_loop ?h2 0 p' x"
    using sl p' assms(2) by (simp add: siftup_def siftdown_def)
  have "hole_inv ?h2 p'" using P(1) by (rule hole_inv_update1)
  moreover have "\<forall>c. 0 < c \<and> c < length ?h2 \<and> (c - 1) div 2 = p' \<longrightarrow> x \<le> ?h2 ! c"
    using P(3) by (auto simp: parent_iff)
  ultimately have "is_heap (siftdown_loop ?h2 0 p' x)" by (rule siftdown_loop_heap)
  moreover have "mset (siftdown_loop ?h2 0 p' x) = add_mset x (mset h - {#h ! 0#})"
    using p' P(4)[of x] assms(2) by (simp add: siftdown_loop_mset mset_update)
  ultimately show ?thesis using eq by simp
qed

lemma heappushpop_heap: "is_heap h \<Longrightarrow> is_heap (heappushpop h x)"
  using siftup_root[of h x] by (simp add: heappushpop_def)

lemma heappushpop_mset:
  "is_heap h \<Longrightarrow> mset (heappushpop h x) =
     (if h \<noteq> [] \<and> h ! 0 < x then add_mset x (mset h - {#h ! 0#}) else mset h)"
  using siftup_root[of h x] by (simp add: heappushpop_def)

lemma heap_root_le:
  assumes "is_heap h" "i < length h"
  shows "h ! 0 \<le> h ! i"
  using assms(2)
proof (induction i rule: less_induct)
  case (less i)
  show ?case
  proof (cases "i = 0")
    case True then show ?thesis by simp
  next
    case False
    then have "(i - 1) div 2 < i" by auto
    moreover from this less.prems have "(i - 1) div 2 < length h" by simp
    ultimately have "h ! 0 \<le> h ! ((i - 1) div 2)" by (rule less.IH)
    moreover have "h ! ((i - 1) div 2) \<le> h ! i"
      using assms(1) False less.prems by (simp add: is_heap_iff)
    ultimately show ?thesis by (rule order_trans)
  qed
qed

lemma heap_root_min: "is_heap h \<Longrightarrow> y \<in> set h \<Longrightarrow> h ! 0 \<le> y"
  by (auto simp: in_set_conv_nth heap_root_le)

section \<open>The scan in closed form\<close>

lemma report_step:
  "progress_callback args = None \<or> update_every args \<noteq> 0 \<Longrightarrow>
   report args (accumulate (top_n args) (fst df) (snd df) st) = Inr (step args st df)"
  by (auto simp: step_def report_def Let_def split: option.splits)

lemma processed_deliver [simp]: "processed (deliver cb est st) = processed st"
  by (simp add: deliver_def Let_def split: cb_outcome.splits)

lemma processed_accumulate [simp]: "processed (accumulate k dp f st) = processed st"
  by (simp add: accumulate_def Let_def)

lemma processed_step:
  "progress_callback args = None \<or> update_every args \<noteq> 0 \<Longrightarrow>
   processed (step args st df) = Suc (processed st)"
  by (auto simp: step_def report_def Let_def split: option.splits)

lemma processed_foldl:
  "progress_callback args = None \<or> update_every args \<noteq> 0 \<Longrightarrow>
   processed (foldl (step args) st xs) = processed st + length xs"
  by (induction xs arbitrary: st) (simp_all add: processed_step)

lemma run_length_le: "run_length ev p n \<le> n"
  by (induction n arbitrary: p) simp_all

lemma run_length_add:
  "run_length ev p (a + b) =
     (if run_length ev p a < a then run_length ev p a else a + run_length ev (p + a) b)"
  by (induction a arbitrary: p) simp_all

lemma run_length_None [simp]: "run_length None p n = n"
  by (induction n arbitrary: p) simp_all

lemma scan_filenames_closed:
  assumes ok: "progress_callback args = None \<or> update_every args \<noteq> 0"
  shows "scan_filenames args dp fs st =
     Inr (let k = run_length (cancel_event args) (processed st) (length fs)
          in (if k < length fs then Return else Next)
               (foldl (step args) st (take k (map (Pair dp) fs))))"
proof (induction fs arbitrary: st)
  case Nil
  show ?case by simp
next
  case (Cons f fs)
  show ?case
  proof (cases "is_cancelled args st")
    case True
    then show ?thesis by (simp add: is_cancelled_def)
  next
    case False
    have "scan_filenames args dp (f # fs) st = scan_filenames args dp fs (step args st (dp, f))"
      using False report_step[OF ok, of "(dp, f)" st] by simp
    also have "\<dots> = Inr (let k = run_length (cancel_event args) (Suc (processed st)) (length fs)
          in (if k < length fs then Return else Next)
               (foldl (step args) (step args st (dp, f)) (take k (map (Pair dp) fs))))"
      by (simp add: Cons.IH processed_step[OF ok])
    finally show ?thesis using False by (simp add: is_cancelled_def Let_def)
  qed
qed

lemma walk_files_Cons:
  "walk_files ((dp, dn, fs) # rest) = map (Pair dp) fs @ walk_files rest"
  by (simp add: walk_files_def)

lemma scan_walk_closed:
  assumes ok: "progress_callback args = None \<or> update_every args \<noteq> 0"
  shows "scan_walk args items st =
     Inr (let xs = walk_files items;
              k = run_length (cancel_event args) (processed st) (length xs)
          in (if k < length xs then Return else Next) (foldl (step args) st (take k xs)))"
proof (induction items arbitrary: st)
  case Nil
  show ?case by (simp add: walk_files_def)
next
  case (Cons item items)
  obtain dp dn fs where item: "item = (dp, dn, fs)" by (cases item) auto
  let ?ev = "cancel_event args"
  let ?k1 = "run_length ?ev (processed st) (length fs)"
  let ?xs = "walk_files items"
  show ?case
  proof (cases "?k1 < length fs")
    case True
    then show ?thesis
      using run_length_le[of ?ev "processed st" "length fs"]
      by (simp add: item scan_filenames_closed[OF ok] walk_files_Cons run_length_add Let_def)
  next
    case False
    then have k1: "?k1 = length fs" using run_length_le[of ?ev "processed st" "length fs"] by simp
    let ?st1 = "foldl (step args) st (map (Pair dp) fs)"
    have "scan_walk args (item # items) st = scan_walk args items ?st1"
      by (simp add: item scan_filenames_closed[OF ok] k1)
    also have "\<dots> = Inr (let xs = ?xs; k = run_length ?ev (processed st + length fs) (length xs)
          in (if k < length xs then Return else Next) (foldl (step args) ?st1 (take k xs)))"
      by (simp add: Cons.IH processed_foldl[OF ok])
    finally show ?thesis
      using k1 by (simp add: item walk_files_Cons run_length_add Let_def)
  qed
qed

lemma collect_closed:
  assumes ok: "progress_callback args = None \<or> update_every args \<noteq> 0"
  shows "collect_folder_stats_streaming folder args fs =
     Inr (let xs = enumerated folder fs;
              k = run_length (cancel_event args) 0 (length xs);
              st = state_after args (take k xs)
          in if k < length xs then finish Cancelled st
             else finish Completed (final_update args st))"
proof -
  let ?xs = "walk_files (os_walk scan_keeps folder fs)"
  let ?k = "run_length (cancel_event args) 0 (length ?xs)"
  have "\<not> ?k < length ?xs \<Longrightarrow> take ?k ?xs = ?xs"
    using run_length_le[of "cancel_event args" 0 "length ?xs"] by simp
  then show ?thesis
    by (auto simp: collect_folder_stats_streaming_def scan_walk_closed[OF ok] enumerated_def
          state_after_def init_state_def Let_def)
qed

section \<open>The state after a list of files\<close>

lemma deliver_fields [simp]:
  "total_files (deliver cb est st) = total_files st"
  "total_size (deliver cb est st) = total_size st"
  "top_heap (deliver cb est st) = top_heap st"
  "ext_counts (deliver cb est st) = ext_counts st"
  "ext_sizes (deliver cb est st) = ext_sizes st"
  "delivered (deliver cb est st) = delivered st @ [(processed st, est)]"
  by (simp_all add: deliver_def Let_def split: cb_outcome.splits)

lemma accumulate_fields [simp]:
  "total_files (accumulate k dp f st) = Suc (total_files st)"
  "total_size (accumulate k dp f st) = total_size st + read_size f"
  "delivered (accumulate k dp f st) = delivered st"
  "top_heap (accumulate k dp f st) =
     (if int (length (top_heap st)) < k then heappush (top_heap st) (heap_item (dp, f))
      else heappushpop (top_heap st) (heap_item (dp, f)))"
  by (simp_all add: accumulate_def Let_def heap_item_def)

lemma step_fields:
  assumes "progress_callback args = None \<or> update_every args \<noteq> 0"
  shows "total_files (step args st df) = Suc (total_files st)"
    and "total_size (step args st df) = total_size st + read_size (snd df)"
    and "top_heap (step args st df) =
          (if int (length (top_heap st)) < top_n args then heappush (top_heap st) (heap_item df)
           else heappushpop (top_heap st) (heap_item df))"
    and "delivered (step args st df) =
          delivered st @
          (if progress_callback args \<noteq> None \<and> int (Suc (processed st)) mod update_every args = 0
           then [(Suc (processed st), total_estimate args)] else [])"
  using assms by (auto simp: step_def report_def Let_def split: option.splits)

lemma state_after_Nil [simp]: "state_after args [] = init_state"
  by (simp add: state_after_def)

lemma state_after_snoc [simp]:
  "state_after args (xs @ [x]) = step args (state_after args xs) x"
  by (simp add: state_after_def)

lemma processed_state_after:
  "progress_callback args = None \<or> update_every args \<noteq> 0 \<Longrightarrow>
   processed (state_after args xs) = length xs"
  by (simp add: state_after_def processed_foldl init_state_def)

lemma total_files_state_after:
  "progress_callback args = None \<or> update_every args \<noteq> 0 \<Longrightarrow>
   total_files (state_after args xs) = length xs"
  by (induction xs rule: rev_induct) (simp_all add: step_fields init_state_def)

lemma total_size_state_after:
  "progress_callback args = None \<or> update_every args \<noteq> 0 \<Longrightarrow>
   total_size (state_after args xs) = sum_list (map (\<lambda>df. read_size (snd df)) xs)"
  by (induction xs rule: rev_induct) (simp_all add: step_fields init_state_def)

lemma delivered_state_after:
  assumes "progress_callback args = None \<or> update_every args \<noteq> 0"
  shows "delivered (state_after args xs) =
     (if progress_callback args = None then []
      else map (\<lambda>m. (m, total_estimate args))
             (filter (\<lambda>m. int m mod update_every args = 0) [1..<Suc (length xs)]))"
  using assms
  by (induction xs rule: rev_induct)
     (simp_all add: step_fields processed_state_after init_state_def)

lemma is_heap_Nil [simp]: "is_heap []"
  by (simp add: is_heap_def)

lemma is_heap_state_after:
  "progress_callback args = None \<or> update_every args \<noteq> 0 \<Longrightarrow>
   is_heap (top_heap (state_after args xs))"
  by (induction xs rule: rev_induct)
     (simp_all add: step_fields init_state_def heappush_heap heappushpop_heap)

section \<open>The heap holds the largest tuples\<close>

lemma sorted_desc_rev_sort: "sorted_wrt (\<lambda>a b. b \<le> a) (rev (sort xs))"
  by (simp add: sorted_wrt_rev)

lemma holds_largest_largest: "holds_largest k xs (largest k xs)"
proof -
  let ?ys = "rev (sort xs)"
  have split: "take k ?ys @ drop k ?ys = ?ys" by simp
  have m: "mset xs = mset (take k ?ys) + mset (drop k ?ys)"
    by (metis split mset_append mset_rev mset_sort)
  have "sorted_wrt (\<lambda>a b. b \<le> a) (take k ?ys @ drop k ?ys)"
    using sorted_desc_rev_sort[of xs] by simp
  then have ord: "\<forall>a\<in>set (take k ?ys). \<forall>b\<in>set (drop k ?ys). b \<le> a"
    by (simp only: sorted_wrt_append) blast
  show ?thesis
    unfolding holds_largest_def largest_def
  proof (intro conjI)
    show "mset (take k ?ys) \<subseteq># mset xs" by (simp add: m)
    show "length (take k ?ys) = min k (length xs)" by (simp add: min.commute)
    show "\<forall>a\<in>set (take k ?ys). \<forall>b\<in>#(mset xs - mset (take k ?ys)). b \<le> a"
      using ord by (simp add: m)
  qed
qed

lemma sub_add_mset: "H \<subseteq># M \<Longrightarrow> H \<subseteq># add_mset x M"
  by (auto simp: subseteq_mset_def le_SucI)

lemma sub_same_size:
  fixes H M :: "'a multiset"
  assumes "H \<subseteq># M" "size H = size M"
  shows "H = M"
proof (rule ccontr)
  assume "H \<noteq> M"
  with assms(1) have "H \<subset># M" by (simp add: subset_mset.less_le)
  then have "size H < size M" by (rule mset_subset_size)
  with assms(2) show False by simp
qed

lemma diff_add_outside:
  "H \<subseteq># M \<Longrightarrow> add_mset x M - H = add_mset x (M - H)"
  by (intro multiset_eqI) (auto simp: subseteq_mset_def Suc_diff_le)

lemma diff_swap_min:
  assumes "m \<in># H" "H \<subseteq># M"
  shows "add_mset x M - add_mset x (H - {#m#}) = add_mset m (M - H)"
proof (intro multiset_eqI)
  fix a
  have 1: "1 \<le> count H m" using assms(1) by (simp add: Suc_le_eq)
  have 2: "count H a \<le> count M a" using assms(2) by (simp add: subseteq_mset_def)
  have 3: "count H m \<le> count M m" using assms(2) by (simp add: subseteq_mset_def)
  show "count (add_mset x M - add_mset x (H - {#m#})) a = count (add_mset m (M - H)) a"
    using 1 2 3 by auto
qed

lemma swap_min_sub:
  "H \<subseteq># M \<Longrightarrow> add_mset x (H - {#m#}) \<subseteq># add_mset x M"
  by (auto simp: subseteq_mset_def) (meson diff_le_self le_trans)

lemma swap_min_size:
  "m \<in># H \<Longrightarrow> size (add_mset x (H - {#m#})) = size H"
  by (simp add: size_Diff_singleton) (metis Suc_pred size_eq_0_iff_empty empty_iff neq0_conv set_mset_empty)

lemma swap_min_mem:
  "a \<in># add_mset x (H - {#m#}) \<Longrightarrow> a = x \<or> a \<in># H"
  by (auto dest: in_diffD)

lemma holds_largest_unique:
  assumes "holds_largest k xs h" "holds_largest k xs h'"
  shows "mset h = mset h'"
proof (rule ccontr)
  assume ne: "mset h \<noteq> mset h'"
  have sz: "size (mset h) = size (mset h')"
    using assms by (simp add: holds_largest_def)
  obtain a where a: "count (mset h') a < count (mset h) a"
    using size_eq_ex_count_lt[OF sz[symmetric] ne[symmetric]] by blast
  obtain b where b: "count (mset h) b < count (mset h') b"
    using size_eq_ex_count_lt[OF sz ne] by blast
  have sub: "mset h \<subseteq># mset xs" "mset h' \<subseteq># mset xs"
    using assms by (simp_all add: holds_largest_def)
  have ah: "a \<in> set h" using a by (metis count_mset_0_iff not_less0)
  have bh': "b \<in> set h'" using b by (metis count_mset_0_iff not_less0)
  have "count (mset h') b \<le> count (mset xs) b"
    using sub(2) by (simp add: subseteq_mset_def)
  with b have "count (mset h) b < count (mset xs) b" by simp
  then have bc: "b \<in># mset xs - mset h" by (simp add: in_diff_count)
  have "count (mset h) a \<le> count (mset xs) a"
    using sub(1) by (simp add: subseteq_mset_def)
  with a have "count (mset h') a < count (mset xs) a" by simp
  then have ac: "a \<in># mset xs - mset h'" by (simp add: in_diff_count)
  have "b \<le> a" using assms(1) ah bc by (simp add: holds_largest_def)
  moreover have "a \<le> b" using assms(2) bh' ac by (simp add: holds_largest_def)
  ultimately have "a = b" by simp
  with a b show False by simp
qed

lemma holds_largest_step:
  assumes hp: "is_heap h" and hl: "holds_largest k xs h"
  shows "holds_largest k (xs @ [x])
           (if length h < k then heappush h x else heappushpop h x)"
proof (cases "length h < k")
  case True
  then have ll: "length h = length xs"
    using hl by (auto simp: holds_largest_def min_def split: if_splits)
  have "mset h \<subseteq># mset xs" using hl by (simp add: holds_largest_def)
  moreover have "size (mset h) = size (mset xs)" using ll by simp
  ultimately have eq: "mset h = mset xs" by (rule sub_same_size)
  have "length (heappush h x) = Suc (length xs)"
    using ll by (metis heappush_mset size_mset size_add_mset)
  then show ?thesis
    using True eq ll by (simp add: holds_largest_def heappush_mset)
next
  case False
  then have len: "length h = k" "k \<le> length xs"
    using hl by (auto simp: holds_largest_def min_def split: if_splits)
  have sub: "mset h \<subseteq># mset xs" using hl by (simp add: holds_largest_def)
  have ord: "\<And>a b. a \<in> set h \<Longrightarrow> b \<in># mset xs - mset h \<Longrightarrow> b \<le> a"
    using hl by (simp add: holds_largest_def)
  show ?thesis
  proof (cases "h \<noteq> [] \<and> h ! 0 < x")
    case True
    let ?m = "h ! 0"
    let ?H' = "add_mset x (mset h - {#?m#})"
    have min: "\<And>y. y \<in> set h \<Longrightarrow> ?m \<le> y" using hp by (rule heap_root_min)
    have mh: "?m \<in># mset h" using True by simp
    have ms: "mset (heappushpop h x) = ?H'"
      using True by (simp add: heappushpop_mset[OF hp])
    have c: "mset (xs @ [x]) - ?H' = add_mset ?m (mset xs - mset h)"
      using diff_swap_min[OF mh sub] by simp
    have "size (mset (heappushpop h x)) = size (mset h)"
      unfolding ms using mh by (rule swap_min_size)
    then have l': "length (heappushpop h x) = length h" by simp
    have "holds_largest k (xs @ [x]) (heappushpop h x)"
      unfolding holds_largest_def
    proof (intro conjI ballI)
      show "mset (heappushpop h x) \<subseteq># mset (xs @ [x])"
        unfolding ms using swap_min_sub[OF sub] by simp
      show "length (heappushpop h x) = min k (length (xs @ [x]))"
        using len l' by simp
    next
      fix a b assume a: "a \<in> set (heappushpop h x)" and b: "b \<in># mset (xs @ [x]) - mset (heappushpop h x)"
      from a have "a \<in># ?H'" using ms by (metis set_mset_mset)
      then have a': "a = x \<or> a \<in> set h"
        using swap_min_mem[of a x "mset h" ?m] by simp
      from b have b': "b = ?m \<or> b \<in># mset xs - mset h"
        using ms c by simp
      have mx: "?m \<le> x" using True by (intro less_imp_le) simp
      show "b \<le> a"
      proof (cases "a = x")
        case ax: True
        show ?thesis
        proof (cases "b = ?m")
          case True
          then show ?thesis using ax mx by simp
        next
          case False
          then have "b \<le> ?m" using b' ord[of ?m b] mh by simp
          then show ?thesis using ax mx by simp
        qed
      next
        case False
        then have ah: "a \<in> set h" using a' by simp
        show ?thesis
        proof (cases "b = ?m")
          case True
          then show ?thesis using min[OF ah] by simp
        next
          case False
          then show ?thesis using b' ord[OF ah] by simp
        qed
      qed
    qed
    then show ?thesis using \<open>\<not> length h < k\<close> by simp
  next
    case nt: False
    have ms: "heappushpop h x = h" using nt by (auto simp: heappushpop_def)
    have c: "mset (xs @ [x]) - mset h = add_mset x (mset xs - mset h)"
      using diff_add_outside[OF sub] by simp
    have xle: "\<And>a. a \<in> set h \<Longrightarrow> x \<le> a"
    proof -
      fix a assume a: "a \<in> set h"
      then have "h \<noteq> []" by auto
      then have "x \<le> h ! 0" using nt by auto
      moreover have "h ! 0 \<le> a" using hp a by (rule heap_root_min)
      ultimately show "x \<le> a" by simp
    qed
    have "holds_largest k (xs @ [x]) h"
      unfolding holds_largest_def
    proof (intro conjI ballI)
      show "mset h \<subseteq># mset (xs @ [x])" using sub_add_mset[OF sub] by simp
      show "length h = min k (length (xs @ [x]))" using len by simp
    next
      fix a b assume a: "a \<in> set h" and b: "b \<in># mset (xs @ [x]) - mset h"
      then show "b \<le> a" using c xle ord by auto
    qed
    then show ?thesis using \<open>\<not> length h < k\<close> ms by simp
  qed
qed

lemma holds_largest_state_after:
  assumes ok: "progress_callback args = None \<or> update_every args \<noteq> 0"
  shows "holds_largest (nat (top_n args)) (map heap_item xs) (top_heap (state_after args xs))"
proof (induction xs rule: rev_induct)
  case Nil
  show ?case by (simp add: holds_largest_def init_state_def)
next
  case (snoc x xs)
  let ?h = "top_heap (state_after args xs)"
  have c: "int (length ?h) < top_n args \<longleftrightarrow> length ?h < nat (top_n args)" by auto
  show ?case
    using holds_largest_step[OF is_heap_state_after[OF ok] snoc.IH, of "heap_item x"]
    by (simp add: step_fields[OF ok] c)
qed

lemma top_heap_largest:
  assumes ok: "progress_callback args = None \<or> update_every args \<noteq> 0"
  shows "mset (top_heap (state_after args xs)) = mset (largest (nat (top_n args)) (map heap_item xs))"
  using holds_largest_state_after[OF ok] holds_largest_largest by (rule holds_largest_unique)

lemma fst_mono: "(a :: 'a::linorder \<times> 'b::linorder) \<le> b \<Longrightarrow> fst a \<le> fst b"
  by (auto simp: less_eq_prod_def)

lemma map_fst_sort: "map fst (sort (ys :: ('a::linorder \<times> 'b::linorder) list)) = sort (map fst ys)"
proof -
  have "sorted_wrt (\<lambda>a b. fst a \<le> fst b) (sort ys)"
    using sorted_sort[of ys] fst_mono by (rule sorted_wrt_mono_rel[rotated])
  then have "sorted (map fst (sort ys))" by (simp add: sorted_map)
  moreover have "mset (map fst (sort ys)) = mset (map fst ys)" by simp
  ultimately show ?thesis
    using properties_for_sort[of "map fst (sort ys)" "map fst ys"] by simp
qed

lemma map_fst_largest:
  "map fst (largest k (ys :: ('a::linorder \<times> 'b::linorder) list)) = largest k (map fst ys)"
  by (simp add: largest_def take_map rev_map map_fst_sort[symmetric])

section \<open>What the scan returns\<close>

lemma final_update_fields [simp]:
  "total_files (final_update args st) = total_files st"
  "total_size (final_update args st) = total_size st"
  "top_heap (final_update args st) = top_heap st"
  "ext_counts (final_update args st) = ext_counts st"
  "ext_sizes (final_update args st) = ext_sizes st"
  by (simp_all add: final_update_def split: option.splits)

lemma finish_fields [simp]:
  "terminal (finish t st) = t"
  "returned (finish t st) = snapshot st"
  "events (finish t st) = delivered st"
  by (simp_all add: finish_def)

lemma snapshot_fields [simp]:
  "total_files_of (snapshot st) = total_files st"
  "total_size_of (snapshot st) = total_size st"
  "ext_summary_of (snapshot st) = make_ext_summary (ext_counts st) (ext_sizes st)"
  "top_files_of (snapshot st) = heap_to_list (top_heap st)"
  by (simp_all add: snapshot_def total_files_of_def total_size_of_def ext_summary_of_def
        top_files_of_def)

lemma mset_sorted_reverse [simp]: "mset (sorted_reverse f xs) = mset xs"
  by (simp add: sorted_reverse_def)

lemma length_sorted_reverse [simp]: "length (sorted_reverse f xs) = length xs"
  by (simp add: sorted_reverse_def)

lemma collect_uncancelled:
  assumes "cancel_event args = None"
      and ok: "progress_callback args = None \<or> update_every args \<noteq> 0"
  shows "collect_folder_stats_streaming folder args fs =
           Inr (finish Completed (final_update args (state_after args (enumerated folder fs))))"
  using assms(1) by (simp add: collect_closed[OF ok])

text \<open>
  The run of the scan on the example: four files and 36 bytes, the extension table by
  bytes, the two largest files, and one callback call per file plus the final one.
\<close>

lemma example_run:
  "collect_folder_stats_streaming ''/r'' example_args example_tree =
     Inr \<lparr>terminal = Completed,
          returned = (4, 36, [(''.txt'', 2, 30), (''.log'', 1, 5), (''<no-ext>'', 1, 1)],
                      [(20, ''/r/b.txt''), (10, ''/r/a.txt'')]),
          events = [(1, None), (2, None), (3, None), (4, None), (4, None)]\<rparr>"
  by code_simp

lemma run_length_Some:
  "run_length (Some is_set) p n \<le> n \<and>
   (\<forall>j<run_length (Some is_set) p n. \<not> is_set (p + j)) \<and>
   (run_length (Some is_set) p n < n \<longrightarrow> is_set (p + run_length (Some is_set) p n))"
proof (induction n arbitrary: p)
  case 0
  show ?case by simp
next
  case (Suc n)
  show ?case
  proof (cases "is_set p")
    case True
    then show ?thesis by simp
  next
    case False
    have "\<And>j. j < Suc (run_length (Some is_set) (Suc p) n) \<Longrightarrow> \<not> is_set (p + j)"
    proof -
      fix j assume j: "j < Suc (run_length (Some is_set) (Suc p) n)"
      show "\<not> is_set (p + j)"
      proof (cases j)
        case 0
        then show ?thesis using False by simp
      next
        case (Suc j')
        then show ?thesis using Suc.IH[of "Suc p"] j by simp
      qed
    qed
    then show ?thesis using False Suc.IH[of "Suc p"] by simp
  qed
qed

lemma sum_read_size:
  "sum_list (map (\<lambda>df. read_size (snd df)) xs) = sum_list (List.map_filter (\<lambda>df. snd (snd df)) xs)"
  by (induction xs) (auto simp: read_size_def map_filter_simps split: option.splits)

lemma enumerated_example:
  "enumerated ''/r'' example_tree =
     [(''/r'', ''a.txt'', Some 10), (''/r'', ''b.txt'', Some 20), (''/r'', ''c.log'', Some 5),
      (''/r'', ''d'', Some 1)]"
  by (simp add: enumerated_def example_tree_def walk_files_def)

text \<open>The run of the scan on the example with the cancel event set after two files.\<close>

lemma cancelled_run:
  "collect_folder_stats_streaming ''/r'' cancel_args example_tree =
     Inr \<lparr>terminal = Cancelled,
          returned = (2, 30, [(''.txt'', 2, 30)], [(20, ''/r/b.txt''), (10, ''/r/a.txt'')]),
          events = [(1, None), (2, None)]\<rparr>"
  by code_simp

text \<open>The scan does not depend on what the callback does.\<close>

lemma deliver_any: "deliver cb est st = deliver cb' est st"
  by (simp add: deliver_def Let_def split: cb_outcome.splits)

lemma report_any:
  "report (args\<lparr>progress_callback := Some cb\<rparr>) st =
   report (args\<lparr>progress_callback := Some cb'\<rparr>) st"
  using deliver_any[of cb "total_estimate args" "st\<lparr>processed := processed st + 1\<rparr>" cb']
  by (simp add: report_def Let_def)

lemma scan_filenames_any:
  "scan_filenames (args\<lparr>progress_callback := Some cb\<rparr>) dp fs st =
   scan_filenames (args\<lparr>progress_callback := Some cb'\<rparr>) dp fs st"
proof (induction fs arbitrary: st)
  case Nil
  show ?case by simp
next
  case (Cons f fs)
  show ?case
    using report_any[where args=args and cb=cb and cb'=cb' and st="accumulate (top_n args) dp f st"]
    by (simp add: is_cancelled_def Cons.IH split: sum.splits)
qed

lemma scan_walk_any:
  "scan_walk (args\<lparr>progress_callback := Some cb\<rparr>) items st =
   scan_walk (args\<lparr>progress_callback := Some cb'\<rparr>) items st"
proof (induction items arbitrary: st)
  case Nil
  show ?case by simp
next
  case (Cons item items)
  obtain dp dn fs where item: "item = (dp, dn, fs)" by (cases item) auto
  show ?case
    using scan_filenames_any[where args=args and cb=cb and cb'=cb' and dp=dp and fs=fs and st=st]
    by (simp add: item Cons.IH split: sum.splits flow.splits)
qed

text \<open>The counts with a fixed remainder, in increasing order.\<close>

lemma periodic_sorted:
  "sorted_wrt (<) (filter P [1..<Suc n])"
  by (simp add: sorted_wrt_filter strict_sorted_iff[symmetric] del: upt_Suc)

lemma swap_changes:
  assumes "m \<in># H" "x \<noteq> m"
  shows "add_mset x (H - {#m#}) \<noteq> H"
proof
  assume eq: "add_mset x (H - {#m#}) = H"
  have "count (add_mset x (H - {#m#})) m = count H m - 1" using assms(2) by simp
  with eq have "count H m - 1 = count H m" by simp
  moreover have "count H m > 0" using assms(1) by (simp only: count_greater_zero_iff)
  ultimately show False by linarith
qed

section \<open>Paths, suffixes and the order of the summary\<close>





text \<open>
  A leading dot and a trailing dot give no suffix; of several dots the last one counts.
\<close>

lemma ext_key_examples:
  "ext_key ''/r.d/.bashrc'' = ''<no-ext>''"
  "ext_key ''/r.d/archive.'' = ''<no-ext>''"
  "ext_key ''/r.d/a.tar.GZ'' = ''.gz''"
  by code_simp+

lemma sorted_reverse_sorted: "sorted_wrt (\<lambda>a b. f b \<le> f a) (sorted_reverse f xs)"
proof -
  have "sorted (map (\<lambda>x. - f x) (sort_key (\<lambda>x. - f x) xs))" by (rule sorted_sort_key)
  then show ?thesis by (simp add: sorted_reverse_def sorted_map)
qed

lemma sorted_reverse_stable:
  "filter (\<lambda>x. f x = v) (sorted_reverse f xs) = filter (\<lambda>x. f x = v) xs"
  using sort_key_stable[of "\<lambda>x. - f x" "- v" xs] by (simp add: sorted_reverse_def)

lemma first_seen_snoc:
  "first_seen (xs @ [x]) = (if x \<in> set xs then first_seen xs else first_seen xs @ [x])"
  by (simp add: first_seen_def)

lemma ext_counts_accumulate:
  "ext_counts (accumulate k dp f st) =
     AList.update (ext_key (path_join dp (fst f)))
       (dict_get (ext_counts st) (ext_key (path_join dp (fst f))) + 1) (ext_counts st)"
  by (simp add: accumulate_def Let_def)

lemma ext_counts_step:
  "progress_callback args = None \<or> update_every args \<noteq> 0 \<Longrightarrow>
   ext_counts (step args st df) =
     AList.update (file_ext df) (dict_get (ext_counts st) (file_ext df) + 1) (ext_counts st)"
  by (auto simp: step_def report_def Let_def ext_counts_accumulate file_ext_def split: option.splits)

lemma ext_keys_state_after:
  assumes ok: "progress_callback args = None \<or> update_every args \<noteq> 0"
  shows "map fst (ext_counts (state_after args xs)) = first_seen (map file_ext xs)"
proof (induction xs rule: rev_induct)
  case Nil
  show ?case by (simp add: init_state_def first_seen_def)
next
  case (snoc x xs)
  have fs: "set (first_seen (map file_ext xs)) = set (map file_ext xs)"
    by (simp add: first_seen_def)
  have k: "map fst (ext_counts (step args (state_after args xs) x)) =
             (if file_ext x \<in> set (first_seen (map file_ext xs))
              then first_seen (map file_ext xs) else first_seen (map file_ext xs) @ [file_ext x])"
    unfolding ext_counts_step[OF ok] update_keys snoc.IH by simp
  have "first_seen (map file_ext (xs @ [x])) =
             (if file_ext x \<in> set (map file_ext xs)
              then first_seen (map file_ext xs) else first_seen (map file_ext xs) @ [file_ext x])"
    using first_seen_snoc[of "map file_ext xs" "file_ext x"] by simp
  then show ?case
    unfolding state_after_snoc k fs by simp
qed

section \<open>The walk without pruning\<close>

lemma os_walk_plain:
  "entries_all (\<lambda>k. k = Plain) fs \<Longrightarrow>
   os_walk scan_keeps p fs = os_walk (\<lambda>dirpath d. True) p fs"
proof (induction scan_keeps p fs rule: os_walk.induct)
  case (1 dirpath filenames dirnames)
  have all: "\<forall>d\<in>set dirnames. fst (snd d) = Plain \<and> entries_all (\<lambda>k. k = Plain) (snd (snd d))"
    using 1(2) by (auto simp: list_all_iff)
  then have keep: "filter (scan_keeps dirpath) dirnames = dirnames"
    by (auto simp: scan_keeps_def islink_or_ismount_def filter_id_conv)
  have M: "map (\<lambda>d. case d of (name, kind, sub) \<Rightarrow>
                 if kind = Symlink then [] else os_walk scan_keeps (path_join dirpath name) sub)
            dirnames =
        map (\<lambda>d. case d of (name, kind, sub) \<Rightarrow>
                 if kind = Symlink then [] else os_walk (\<lambda>dirpath d. True) (path_join dirpath name) sub)
            dirnames"
  proof (rule map_cong[OF refl])
    fix d assume d: "d \<in> set dirnames"
    obtain name kind sub where e: "d = (name, kind, sub)" by (cases d) auto
    have din: "d \<in> set (filter (scan_keeps dirpath) dirnames)" using d keep by simp
    have k: "kind = Plain" and sub: "entries_all (\<lambda>k. k = Plain) sub"
      using all d e by auto
    have ns: "kind \<noteq> Symlink" using k by simp
    have "os_walk scan_keeps (path_join dirpath name) sub =
          os_walk (\<lambda>dirpath d. True) (path_join dirpath name) sub"
      by (rule 1(1)[OF din e[symmetric] refl ns sub])
    then show "(case d of (name, kind, sub) \<Rightarrow>
                 if kind = Symlink then [] else os_walk scan_keeps (path_join dirpath name) sub) =
               (case d of (name, kind, sub) \<Rightarrow>
                 if kind = Symlink then [] else os_walk (\<lambda>dirpath d. True) (path_join dirpath name) sub)"
      by (simp add: e)
  qed
  have "os_walk scan_keeps dirpath (Dir filenames dirnames) =
          (dirpath, dirnames, filenames) #
          concat (map (\<lambda>d. case d of (name, kind, sub) \<Rightarrow>
                 if kind = Symlink then [] else os_walk scan_keeps (path_join dirpath name) sub)
            dirnames)"
    by (simp add: keep)
  also have "\<dots> = (dirpath, dirnames, filenames) #
          concat (map (\<lambda>d. case d of (name, kind, sub) \<Rightarrow>
                 if kind = Symlink then []
                 else os_walk (\<lambda>dirpath d. True) (path_join dirpath name) sub)
            dirnames)"
    by (simp only: M)
  also have "\<dots> = os_walk (\<lambda>dirpath d. True) dirpath (Dir filenames dirnames)"
    by simp
  finally show ?case .
qed

lemma count_walk:
  "foldl (\<lambda>count item. case item of (dirpath, dirnames, filenames) \<Rightarrow> count + length filenames)
         c items = c + length (walk_files items)"
  by (induction items arbitrary: c) (auto simp: walk_files_def)

lemma quick_count_walk:
  "quick_count_files p fs = length (walk_files (os_walk (\<lambda>dirpath d. True) p fs))"
  by (simp add: quick_count_files_def count_walk)

text \<open>
  \<^verbatim>\<open>quick_count_files\<close> walks into a mount point, which the scan prunes.
\<close>

lemma quick_count_walks_into_mounts:
  "quick_count_files ''/r'' mount_tree = 1 \<and>
   collect_folder_stats_streaming ''/r'' example_args mount_tree =
     Inr \<lparr>terminal = Completed, returned = (0, 0, [], []), events = [(0, None)]\<rparr>"
  by code_simp

text \<open>A scan that is not cancelled runs through every enumerated file.\<close>

lemma run_length_not_cancelled:
  assumes "not_cancelled args n"
  shows "run_length (cancel_event args) 0 n = n"
proof (cases "cancel_event args")
  case None
  then show ?thesis by simp
next
  case (Some is_set)
  let ?k = "run_length (Some is_set) 0 n"
  have P: "?k \<le> n" "?k < n \<Longrightarrow> is_set ?k"
    using run_length_Some[of is_set 0 n] by simp_all
  have "\<And>i. i < n \<Longrightarrow> \<not> is_set i"
    using assms Some by (simp add: not_cancelled_def list_all_iff)
  then have "\<not> ?k < n" using P(2) by blast
  then show ?thesis using P(1) Some by simp
qed

lemma collect_not_cancelled:
  assumes nc: "not_cancelled args (length (enumerated folder fs))"
      and ok: "progress_callback args = None \<or> update_every args \<noteq> 0"
  shows "collect_folder_stats_streaming folder args fs =
           Inr (finish Completed (final_update args (state_after args (enumerated folder fs))))"
  by (simp add: collect_closed[OF ok] run_length_not_cancelled[OF nc])

lemma not_cancelled_gui [simp]: "not_cancelled gui_args n"
  by (simp add: not_cancelled_def gui_args_def list_all_iff)

lemma not_cancelled_None: "cancel_event args = None \<Longrightarrow> not_cancelled args n"
  by (simp add: not_cancelled_def)

text \<open>The sizes of the top files and the keys of the extension rows.\<close>

lemma top_sizes_state_after:
  assumes ok: "progress_callback args = None \<or> update_every args \<noteq> 0"
  shows "mset (map fst (heap_to_list (top_heap (state_after args xs)))) =
           mset (largest (nat (top_n args)) (map (\<lambda>df. read_size (snd df)) xs))"
    and "length (heap_to_list (top_heap (state_after args xs))) = min (nat (top_n args)) (length xs)"
proof -
  let ?h = "top_heap (state_after args xs)"
  have m: "mset ?h = mset (largest (nat (top_n args)) (map heap_item xs))"
    using ok by (rule top_heap_largest)
  have "mset (map fst (heap_to_list ?h)) = image_mset fst (mset ?h)"
    by (simp add: heap_to_list_def)
  also have "\<dots> = mset (map fst (largest (nat (top_n args)) (map heap_item xs)))"
    by (simp add: m)
  also have "\<dots> = mset (largest (nat (top_n args)) (map (\<lambda>df. read_size (snd df)) xs))"
    by (simp add: map_fst_largest heap_item_def comp_def)
  finally show "mset (map fst (heap_to_list ?h)) =
      mset (largest (nat (top_n args)) (map (\<lambda>df. read_size (snd df)) xs))" .
  have "length ?h = min (nat (top_n args)) (length xs)"
    using holds_largest_state_after[OF ok, of xs] by (simp add: holds_largest_def)
  then show "length (heap_to_list ?h) = min (nat (top_n args)) (length xs)"
    by (simp add: heap_to_list_def)
qed

lemma ext_summary_keys:
  "mset (map fst (make_ext_summary ec es)) = mset (map fst ec)"
proof -
  have "map fst (map (\<lambda>(ext, cnt). (ext, cnt, dict_get es ext)) ec) = map fst ec"
    by (induction ec) auto
  then have "mset (map fst ec) =
             image_mset fst (mset (map (\<lambda>(ext, cnt). (ext, cnt, dict_get es ext)) ec))"
    by (metis mset_map)
  then show ?thesis by (simp add: make_ext_summary_def)
qed

lemma events_not_cancelled:
  assumes nc: "not_cancelled args (length (enumerated folder fs))"
      and cb: "progress_callback args = Some cb"
      and n: "update_every args \<noteq> 0"
  shows "collect_folder_stats_streaming folder args fs =
           Inr (finish Completed (final_update args (state_after args (enumerated folder fs)))) \<and>
         map fst (delivered (final_update args (state_after args (enumerated folder fs)))) =
           filter (\<lambda>m. int m mod update_every args = 0) [1..<Suc (length (enumerated folder fs))]
           @ [length (enumerated folder fs)]"
proof -
  have ok: "progress_callback args = None \<or> update_every args \<noteq> 0" using n by simp
  show ?thesis
    using cb
    by (simp add: collect_not_cancelled[OF nc ok] final_update_def delivered_state_after[OF ok]
          processed_state_after[OF ok] comp_def)
qed


lemma ext_key_latin1:
  "ext_key (''/r.d/x.'' @ [CHR 0xC9]) = ''.'' @ [CHR 0xE9]"
  "ext_key (''/r.d/x.'' @ [CHR 0xD7, CHR 0xDF]) = ''.'' @ [CHR 0xD7, CHR 0xDF]"
  by code_simp+

section \<open>The claims\<close>

text \<open>
  Claim C1. For every \<^verbatim>\<open>top_n\<close> \<open>K\<close> and every tree, a scan that is not cancelled (no
  cancel event, or an event that no \<^verbatim>\<open>is_set()\<close> call finds set; and a callback check
  that cannot divide by zero) returns normally through the final \<^verbatim>\<open>return\<close>, and the
  sizes in its top-files list are, as a multiset, exactly the \<open>K\<close> largest of the sizes
  read for the enumerated files; the list has \<open>min K (number of files)\<close> entries. The
  statement needs no lower bound on \<open>K\<close>: \<open>nat\<close> sends a \<^verbatim>\<open>top_n\<close> below 1 to 0, where
  the list is empty.
\<close>

theorem top_files_are_the_largest:
  assumes "not_cancelled args (length (enumerated folder fs))"
      and "progress_callback args = None \<or> update_every args \<noteq> 0"
  shows "\<exists>r. collect_folder_stats_streaming folder args fs = Inr r \<and>
             terminal r = Completed \<and>
             mset (map fst (top_files_of (returned r))) =
               mset (largest (nat (top_n args))
                      (map (\<lambda>df. read_size (snd df)) (enumerated folder fs))) \<and>
             length (top_files_of (returned r)) =
               min (nat (top_n args)) (length (enumerated folder fs))"
  using top_sizes_state_after[OF assms(2), of "enumerated folder fs"]
  by (simp add: collect_not_cancelled[OF assms])

theorem top_files_are_the_largest_witness:
  "not_cancelled gui_args (length (enumerated ''/r'' example_tree)) \<and>
   (progress_callback gui_args = None \<or> update_every gui_args \<noteq> 0) \<and>
   (\<exists>r. collect_folder_stats_streaming ''/r'' gui_args example_tree = Inr r \<and>
        terminal r = Completed \<and>
        mset (map fst (top_files_of (returned r))) =
          mset (largest (nat (top_n gui_args))
                 (map (\<lambda>df. read_size (snd df)) (enumerated ''/r'' example_tree))) \<and>
        length (top_files_of (returned r)) =
          min (nat (top_n gui_args)) (length (enumerated ''/r'' example_tree)))"
proof -
  have a: "not_cancelled gui_args (length (enumerated ''/r'' example_tree))" by simp
  have b: "progress_callback gui_args = None \<or> update_every gui_args \<noteq> 0"
    by (simp add: gui_args_def example_args_def)
  show ?thesis
    using top_files_are_the_largest[OF a b] a b by (intro conjI)
qed

text \<open>
  Claim C3. Let the scan have a cancel event, and let the \<^verbatim>\<open>is_set()\<close> call made when
  \<open>i\<close> files have been processed answer true, with more files still to come. Then the
  scan stops at the first call \<open>k \<le> i\<close> that answers true: it returns normally through
  the early \<^verbatim>\<open>return\<close>, and the value it returns holds the statistics of exactly the
  first \<open>k\<close> enumerated files: their number, the sum of their sizes, the extension keys
  seen among them, and the largest of their sizes. So no file after the \<open>i\<close>-th is ever
  accumulated. (\<^verbatim>\<open>update_every\<close> is not 0 when a callback is given, as the interval of
  a scan request is at least 1.)
\<close>

theorem cancellation_stops_the_scan:
  assumes ev: "cancel_event args = Some is_set"
      and ok: "progress_callback args = None \<or> update_every args \<noteq> 0"
      and i: "i < length (enumerated folder fs)"
      and set: "is_set i"
  shows "\<exists>k\<le>i. is_set k \<and> (\<forall>j<k. \<not> is_set j) \<and>
           (\<exists>r. collect_folder_stats_streaming folder args fs = Inr r \<and>
                terminal r = Cancelled \<and>
                returned r = snapshot (state_after args (take k (enumerated folder fs))) \<and>
                total_files_of (returned r) = k \<and>
                total_size_of (returned r) =
                  sum_list (map (\<lambda>df. read_size (snd df)) (take k (enumerated folder fs))) \<and>
                mset (map fst (ext_summary_of (returned r))) =
                  mset (first_seen (map file_ext (take k (enumerated folder fs)))) \<and>
                mset (map fst (top_files_of (returned r))) =
                  mset (largest (nat (top_n args))
                         (map (\<lambda>df. read_size (snd df)) (take k (enumerated folder fs)))))"
proof -
  let ?xs = "enumerated folder fs"
  let ?k = "run_length (Some is_set) 0 (length ?xs)"
  let ?st = "state_after args (take ?k ?xs)"
  have P: "?k \<le> length ?xs" "\<And>j. j < ?k \<Longrightarrow> \<not> is_set j"
          "?k < length ?xs \<Longrightarrow> is_set ?k"
    using run_length_Some[of is_set 0 "length ?xs"] by simp_all
  have ki: "?k \<le> i" using P(2)[of i] set by (cases "?k \<le> i") simp_all
  then have lt: "?k < length ?xs" using i by simp
  have run: "collect_folder_stats_streaming folder args fs = Inr (finish Cancelled ?st)"
    using lt by (simp add: collect_closed[OF ok] ev Let_def)
  have 1: "total_files_of (snapshot ?st) = ?k"
    using P(1) by (simp add: total_files_state_after[OF ok])
  have 2: "total_size_of (snapshot ?st) = sum_list (map (\<lambda>df. read_size (snd df)) (take ?k ?xs))"
    by (simp add: total_size_state_after[OF ok])
  have 3: "mset (map fst (ext_summary_of (snapshot ?st))) =
             mset (first_seen (map file_ext (take ?k ?xs)))"
    using ext_keys_state_after[OF ok, of "take ?k ?xs"]
    by (simp only: snapshot_fields ext_summary_keys)
  have 4: "mset (map fst (top_files_of (snapshot ?st))) =
             mset (largest (nat (top_n args)) (map (\<lambda>df. read_size (snd df)) (take ?k ?xs)))"
    using top_sizes_state_after(1)[OF ok, of "take ?k ?xs"] by (simp only: snapshot_fields)
  have "\<exists>r. collect_folder_stats_streaming folder args fs = Inr r \<and>
                terminal r = Cancelled \<and>
                returned r = snapshot ?st \<and>
                total_files_of (returned r) = ?k \<and>
                total_size_of (returned r) =
                  sum_list (map (\<lambda>df. read_size (snd df)) (take ?k ?xs)) \<and>
                mset (map fst (ext_summary_of (returned r))) =
                  mset (first_seen (map file_ext (take ?k ?xs))) \<and>
                mset (map fst (top_files_of (returned r))) =
                  mset (largest (nat (top_n args))
                         (map (\<lambda>df. read_size (snd df)) (take ?k ?xs)))"
    by (rule exI[of _ "finish Cancelled ?st"]) (simp only: run finish_fields 1 2 3 4 simp_thms)
  then show ?thesis using ki P(2) P(3)[OF lt] by blast
qed

theorem cancellation_stops_the_scan_witness:
  "cancel_event cancel_args = Some (\<lambda>n. 2 \<le> n) \<and>
   (progress_callback cancel_args = None \<or> update_every cancel_args \<noteq> 0) \<and>
   2 < length (enumerated ''/r'' example_tree) \<and> (2::nat) \<le> 2 \<and>
   (\<exists>r. collect_folder_stats_streaming ''/r'' cancel_args example_tree = Inr r \<and>
        terminal r = Cancelled \<and>
        returned r = snapshot (state_after cancel_args (take 2 (enumerated ''/r'' example_tree))) \<and>
        total_files_of (returned r) = 2 \<and>
        total_size_of (returned r) = 30)"
proof -
  have a: "cancel_event cancel_args = Some (\<lambda>n. 2 \<le> n)"
    by (simp add: cancel_args_def)
  have b: "progress_callback cancel_args = None \<or> update_every cancel_args \<noteq> 0"
    by (simp add: cancel_args_def example_args_def)
  have c: "2 < length (enumerated ''/r'' example_tree)"
    by (simp add: enumerated_example)
  have d: "(2::nat) \<le> 2" by simp
  obtain k r where k: "k \<le> 2" "2 \<le> k"
      and r: "collect_folder_stats_streaming ''/r'' cancel_args example_tree = Inr r"
        "terminal r = Cancelled"
        "returned r = snapshot (state_after cancel_args (take k (enumerated ''/r'' example_tree)))"
        "total_files_of (returned r) = k"
        "total_size_of (returned r) =
           sum_list (map (\<lambda>df. read_size (snd df)) (take k (enumerated ''/r'' example_tree)))"
    using cancellation_stops_the_scan[OF a b c d] by blast
  from k have k2: "k = 2" by simp
  have s: "sum_list (map (\<lambda>df. read_size (snd df)) (take 2 (enumerated ''/r'' example_tree))) = 30"
    by (simp add: enumerated_example read_size_def numeral_2_eq_2)
  show ?thesis
    using a b c r s unfolding k2 by (intro conjI exI[of _ r]) simp_all
qed

text \<open>
  Claim C4, as the code has it. Every scan returns normally, whether it ends through the
  final \<^verbatim>\<open>return\<close> or through the early one, and it ends through the early one exactly
  when some \<^verbatim>\<open>is_set()\<close> call made before a file answers true. The returned value is the
  same 4-tuple in both cases; it has no component that tells the two apart.
\<close>

theorem both_outcomes_return_normally:
  assumes ok: "progress_callback args = None \<or> update_every args \<noteq> 0"
  shows "\<exists>r. collect_folder_stats_streaming folder args fs = Inr r \<and>
             (terminal r = Cancelled \<longleftrightarrow>
                (\<exists>is_set i. cancel_event args = Some is_set \<and>
                            i < length (enumerated folder fs) \<and> is_set i))"
proof (cases "cancel_event args")
  case None
  then show ?thesis by (simp add: collect_uncancelled[OF _ ok])
next
  case (Some is_set)
  let ?xs = "enumerated folder fs"
  let ?k = "run_length (Some is_set) 0 (length ?xs)"
  have P: "?k \<le> length ?xs" "\<And>j. j < ?k \<Longrightarrow> \<not> is_set j"
          "?k < length ?xs \<Longrightarrow> is_set ?k"
    using run_length_Some[of is_set 0 "length ?xs"] by simp_all
  show ?thesis
  proof (cases "?k < length ?xs")
    case True
    then show ?thesis using P(3) Some by (auto simp: collect_closed[OF ok] Let_def)
  next
    case False
    then have "?k = length ?xs" using P(1) by simp
    then have "\<And>i. i < length ?xs \<Longrightarrow> \<not> is_set i" using P(2) by simp
    then show ?thesis using False Some by (auto simp: collect_closed[OF ok] Let_def)
  qed
qed

theorem both_outcomes_return_normally_witness:
  "(progress_callback cancel_args = None \<or> update_every cancel_args \<noteq> 0) \<and>
   (\<exists>r. collect_folder_stats_streaming ''/r'' cancel_args example_tree = Inr r \<and>
        terminal r = Cancelled) \<and>
   (\<exists>r. collect_folder_stats_streaming ''/r'' example_args example_tree = Inr r \<and>
        terminal r = Completed)"
proof -
  have b: "progress_callback cancel_args = None \<or> update_every cancel_args \<noteq> 0"
    by (simp add: cancel_args_def example_args_def)
  have b': "progress_callback example_args = None \<or> update_every example_args \<noteq> 0"
    by (simp add: example_args_def)
  have s: "\<exists>is_set i. cancel_event cancel_args = Some is_set \<and>
             i < length (enumerated ''/r'' example_tree) \<and> is_set i"
    by (rule exI[of _ "\<lambda>n. 2 \<le> n"], rule exI[of _ 2])
       (simp add: cancel_args_def enumerated_example)
  have n: "\<not> (\<exists>is_set i. cancel_event example_args = Some is_set \<and>
             i < length (enumerated ''/r'' example_tree) \<and> is_set i)"
    by (simp add: example_args_def)
  obtain r where r: "collect_folder_stats_streaming ''/r'' cancel_args example_tree = Inr r"
      "terminal r = Cancelled \<longleftrightarrow>
         (\<exists>is_set i. cancel_event cancel_args = Some is_set \<and>
             i < length (enumerated ''/r'' example_tree) \<and> is_set i)"
    using both_outcomes_return_normally[OF b, of "''/r''" example_tree] by (elim exE conjE)
  have 1: "terminal r = Cancelled" using r(2) s by (simp only:)
  obtain r' where r': "collect_folder_stats_streaming ''/r'' example_args example_tree = Inr r'"
      "terminal r' = Cancelled \<longleftrightarrow>
         (\<exists>is_set i. cancel_event example_args = Some is_set \<and>
             i < length (enumerated ''/r'' example_tree) \<and> is_set i)"
    using both_outcomes_return_normally[OF b', of "''/r''" example_tree] by (elim exE conjE)
  have "terminal r' \<noteq> Cancelled" using r'(2) n by (simp only:) simp
  then have 2: "terminal r' = Completed" by (cases "terminal r'") simp_all
  show ?thesis
  proof (intro conjI)
    show "progress_callback cancel_args = None \<or> update_every cancel_args \<noteq> 0" by (rule b)
    show "\<exists>r. collect_folder_stats_streaming ''/r'' cancel_args example_tree = Inr r \<and>
        terminal r = Cancelled"
      using r(1) 1 by (intro exI[of _ r] conjI)
    show "\<exists>r. collect_folder_stats_streaming ''/r'' example_args example_tree = Inr r \<and>
        terminal r = Completed"
      using r'(1) 2 by (intro exI[of _ r'] conjI)
  qed
qed

text \<open>
  Claim C4 as stated asks for a completion flag in the returned value. With the cancel
  event set from the start, the scan of a directory with one file is cancelled and the
  scan of an empty directory completes (no \<^verbatim>\<open>is_set()\<close> call is made), and both return
  the same tuple.
\<close>

theorem no_completion_flag_counterexample:
  "collect_folder_stats_streaming ''/r'' preset_args (Dir [(''a'', Some 1)] []) =
     Inr \<lparr>terminal = Cancelled, returned = (0, 0, [], []), events = []\<rparr> \<and>
   collect_folder_stats_streaming ''/r'' preset_args (Dir [] []) =
     Inr \<lparr>terminal = Completed, returned = (0, 0, [], []), events = []\<rparr>"
  by code_simp

text \<open>
  Claim C8. In a scan that is not cancelled (no cancel event, or an event that no
  \<^verbatim>\<open>is_set()\<close> call finds set), every enumerated file is counted, also one whose
  \<^verbatim>\<open>getsize\<close> raises, and the byte total is the sum of the sizes that could be read.
  (\<^verbatim>\<open>update_every\<close> is not 0 when a callback is given.)
\<close>

theorem failed_size_reads_count_as_zero:
  assumes "not_cancelled args (length (enumerated folder fs))"
      and "progress_callback args = None \<or> update_every args \<noteq> 0"
  shows "\<exists>r. collect_folder_stats_streaming folder args fs = Inr r \<and>
             total_files_of (returned r) = length (enumerated folder fs) \<and>
             total_size_of (returned r) =
               sum_list (List.map_filter (\<lambda>df. snd (snd df)) (enumerated folder fs))"
  by (simp add: collect_not_cancelled[OF assms] total_files_state_after[OF assms(2)]
        total_size_state_after[OF assms(2)] sum_read_size)

theorem failed_size_reads_count_as_zero_witness:
  "not_cancelled gui_args (length (enumerated ''/r'' unreadable_tree)) \<and>
   (progress_callback gui_args = None \<or> update_every gui_args \<noteq> 0) \<and>
   (\<exists>r. collect_folder_stats_streaming ''/r'' gui_args unreadable_tree = Inr r \<and>
        total_files_of (returned r) = 2 \<and> total_size_of (returned r) = 3)"
proof -
  have a: "not_cancelled gui_args (length (enumerated ''/r'' unreadable_tree))" by simp
  have b: "progress_callback gui_args = None \<or> update_every gui_args \<noteq> 0"
    by (simp add: gui_args_def example_args_def)
  have e: "enumerated ''/r'' unreadable_tree =
          [(''/r'', ''a.bin'', Some 3), (''/r'', ''locked.bin'', None)]"
    by (simp add: enumerated_def unreadable_tree_def walk_files_def)
  obtain r where r: "collect_folder_stats_streaming ''/r'' gui_args unreadable_tree = Inr r"
      "total_files_of (returned r) = length (enumerated ''/r'' unreadable_tree)"
      "total_size_of (returned r) =
         sum_list (List.map_filter (\<lambda>df. snd (snd df)) (enumerated ''/r'' unreadable_tree))"
    using failed_size_reads_count_as_zero[OF a b] by (elim exE conjE)
  have "total_files_of (returned r) = 2" using r(2) by (simp add: e)
  moreover have "total_size_of (returned r) = 3" using r(3) by (simp add: e map_filter_simps)
  ultimately show ?thesis using a b r(1) by (intro conjI exI[of _ r])
qed

text \<open>
  Claim C9. Whatever the progress callback does on each of its invocations (return, or
  raise an \<^verbatim>\<open>Exception\<close>), the scan does the same as with a callback that always
  returns: the same return value through the same \<^verbatim>\<open>return\<close> statement after the same
  calls; and it does return when \<^verbatim>\<open>update_every\<close> is not 0.
\<close>

theorem callback_exceptions_are_swallowed:
  "collect_folder_stats_streaming folder (args\<lparr>progress_callback := Some cb\<rparr>) fs =
     collect_folder_stats_streaming folder
       (args\<lparr>progress_callback := Some (\<lambda>n. Returns)\<rparr>) fs \<and>
   (update_every args \<noteq> 0 \<longrightarrow>
     (\<exists>r. collect_folder_stats_streaming folder (args\<lparr>progress_callback := Some cb\<rparr>) fs
            = Inr r))"
proof -
  have "final_update (args\<lparr>progress_callback := Some cb\<rparr>) st =
        final_update (args\<lparr>progress_callback := Some (\<lambda>n. Returns)\<rparr>) st" for st
    using deliver_any[of cb "total_estimate args" st "\<lambda>n. Returns"]
    by (simp add: final_update_def)
  then have "collect_folder_stats_streaming folder (args\<lparr>progress_callback := Some cb\<rparr>) fs =
     collect_folder_stats_streaming folder
       (args\<lparr>progress_callback := Some (\<lambda>n. Returns)\<rparr>) fs"
    using scan_walk_any[where args=args and cb=cb and cb'="\<lambda>n. Returns" and st=init_state]
    by (simp add: collect_folder_stats_streaming_def split: sum.splits flow.splits)
  moreover have "update_every args \<noteq> 0 \<Longrightarrow>
     \<exists>r. collect_folder_stats_streaming folder (args\<lparr>progress_callback := Some cb\<rparr>) fs = Inr r"
    using collect_closed[of "args\<lparr>progress_callback := Some cb\<rparr>" folder fs] by simp
  ultimately show ?thesis by blast
qed

theorem callback_exceptions_are_swallowed_witness:
  "collect_folder_stats_streaming ''/r'' raising_args example_tree =
     collect_folder_stats_streaming ''/r'' example_args example_tree \<and>
   update_every example_args \<noteq> 0 \<and>
   (\<exists>r. collect_folder_stats_streaming ''/r'' raising_args example_tree = Inr r)"
proof -
  have a: "example_args\<lparr>progress_callback := Some (\<lambda>n. Raises_Exception)\<rparr> = raising_args"
    by (simp add: raising_args_def)
  have b: "example_args\<lparr>progress_callback := Some (\<lambda>n. Returns)\<rparr> = example_args"
    by (simp add: example_args_def)
  have c: "update_every example_args \<noteq> 0"
    by (simp add: example_args_def)
  note th = callback_exceptions_are_swallowed[where folder="''/r''" and args=example_args
          and cb="\<lambda>n. Raises_Exception" and fs=example_tree, unfolded a b]
  from th c show ?thesis by blast
qed

text \<open>
  Claim C2, as the code has it. Let the heap hold \<^verbatim>\<open>top_n\<close> \<open>\<ge> 1\<close> tuples (at least that
  many files were seen). Its first element \<open>m\<close> is the smallest held tuple in the order
  of \<^verbatim>\<open>(sz, fp)\<close> tuples. Observing a new file with tuple \<open>x\<close> replaces \<open>m\<close> by \<open>x\<close> when
  \<open>m < x\<close> and leaves the held tuples unchanged otherwise. So a strictly smaller size
  changes nothing and a strictly greater size replaces \<open>m\<close>; on equal sizes the paths
  decide: the heap is unchanged exactly when the new path is not greater than the path
  of \<open>m\<close>.
\<close>

theorem full_heap_replaces_a_smaller_tuple:
  assumes ok: "progress_callback args = None \<or> update_every args \<noteq> 0"
      and k1: "1 \<le> top_n args"
      and kn: "top_n args \<le> int (length xs)"
  shows "(let h = top_heap (state_after args xs);
              h' = top_heap (state_after args (xs @ [df]));
              m = h ! 0;
              x = heap_item df
          in int (length h) = top_n args \<and>
             m \<in> set h \<and> (\<forall>y\<in>set h. m \<le> y) \<and>
             mset h' = (if m < x then add_mset x (mset h - {#m#}) else mset h) \<and>
             (fst x < fst m \<longrightarrow> mset h' = mset h) \<and>
             (fst m < fst x \<longrightarrow> mset h' = add_mset x (mset h - {#m#})) \<and>
             (fst x = fst m \<longrightarrow> (mset h' = mset h \<longleftrightarrow> snd x \<le> snd m)))"
proof -
  let ?h = "top_heap (state_after args xs)"
  let ?x = "heap_item df"
  let ?m = "?h ! 0"
  have hp: "is_heap ?h" using ok by (rule is_heap_state_after)
  have "nat (top_n args) \<le> length xs" using kn by simp
  moreover have "length ?h = min (nat (top_n args)) (length xs)"
    using holds_largest_state_after[OF ok, of xs] by (simp add: holds_largest_def)
  ultimately have len: "length ?h = nat (top_n args)" by simp
  then have li: "int (length ?h) = top_n args" using k1 by simp
  have ne: "?h \<noteq> []" using len k1 by auto
  then have mh: "?m \<in> set ?h" by (simp add: nth_mem)
  have min: "\<forall>y\<in>set ?h. ?m \<le> y" using hp by (auto intro: heap_root_min)
  have h': "top_heap (state_after args (xs @ [df])) = heappushpop ?h ?x"
    using li by (simp add: step_fields[OF ok])
  have ms: "mset (heappushpop ?h ?x) = (if ?m < ?x then add_mset ?x (mset ?h - {#?m#}) else mset ?h)"
    using ne by (simp add: heappushpop_mset[OF hp])
  have neq: "?m < ?x \<Longrightarrow> add_mset ?x (mset ?h - {#?m#}) \<noteq> mset ?h"
    using swap_changes[of ?m "mset ?h" ?x] mh by auto
  have a: "fst ?x < fst ?m \<Longrightarrow> \<not> ?m < ?x" by (auto simp: less_prod_def)
  have b: "fst ?m < fst ?x \<Longrightarrow> ?m < ?x" by (auto simp: less_prod_def)
  have c: "fst ?x = fst ?m \<Longrightarrow> ?m < ?x \<longleftrightarrow> \<not> snd ?x \<le> snd ?m"
    by (auto simp: less_prod_def)
  show ?thesis
    unfolding Let_def h'
    using li mh min ms neq a b c by auto
qed

theorem full_heap_replaces_a_smaller_tuple_witness:
  "(progress_callback keep_one_args = None \<or> update_every keep_one_args \<noteq> 0) \<and>
   1 \<le> top_n keep_one_args \<and>
   top_n keep_one_args \<le> int (length [(''/r'', ''a'', Some (5::int))]) \<and>
   int (length (top_heap (state_after keep_one_args [(''/r'', ''a'', Some 5)]))) = top_n keep_one_args \<and>
   mset (top_heap (state_after keep_one_args ([(''/r'', ''a'', Some 5)] @ [(''/r'', ''b'', Some 5)]))) =
     (if top_heap (state_after keep_one_args [(''/r'', ''a'', Some 5)]) ! 0 < heap_item (''/r'', ''b'', Some 5)
      then add_mset (heap_item (''/r'', ''b'', Some 5))
             (mset (top_heap (state_after keep_one_args [(''/r'', ''a'', Some 5)])) -
              {#top_heap (state_after keep_one_args [(''/r'', ''a'', Some 5)]) ! 0#})
      else mset (top_heap (state_after keep_one_args [(''/r'', ''a'', Some 5)])))"
proof -
  have a: "progress_callback keep_one_args = None \<or> update_every keep_one_args \<noteq> 0"
    and b: "1 \<le> top_n keep_one_args"
    and c: "top_n keep_one_args \<le> int (length [(''/r'', ''a'', Some (5::int))])"
    by (simp_all add: keep_one_args_def example_args_def)
  show ?thesis
    using full_heap_replaces_a_smaller_tuple[OF a b c, of "(''/r'', ''b'', Some 5)"] a b c
    unfolding Let_def by blast
qed

text \<open>
  Claim C2 as stated has the held pairs unchanged whenever the new size equals the
  smallest held size. With \<^verbatim>\<open>top_n = 1\<close> and two files of 5 bytes, \<^verbatim>\<open>a\<close> then \<^verbatim>\<open>b\<close>,
  the heap holds \<^verbatim>\<open>(5, "/r/a")\<close> when \<^verbatim>\<open>b\<close> is observed, and afterwards it holds
  \<^verbatim>\<open>(5, "/r/b")\<close>, which is what the scan returns.
\<close>

theorem tie_in_size_replaces_counterexample:
  "enumerated ''/r'' tie_tree = [(''/r'', ''a'', Some 5), (''/r'', ''b'', Some 5)] \<and>
   top_heap (state_after keep_one_args [(''/r'', ''a'', Some 5)]) = [(5, ''/r/a'')] \<and>
   read_size (''b'', Some 5) \<le> fst (top_heap (state_after keep_one_args [(''/r'', ''a'', Some 5)]) ! 0) \<and>
   top_heap (state_after keep_one_args [(''/r'', ''a'', Some 5), (''/r'', ''b'', Some 5)])
     = [(5, ''/r/b'')] \<and>
   collect_folder_stats_streaming ''/r'' keep_one_args tie_tree =
     Inr \<lparr>terminal = Completed, returned = (2, 10, [(''<no-ext>'', 2, 10)], [(5, ''/r/b'')]),
          events = [(1, None), (2, None), (2, None)]\<rparr>"
  by code_simp

text \<open>
  Claim C5, as the code has it. A scan that is not cancelled (no cancel event, or an
  event that no \<^verbatim>\<open>is_set()\<close> call finds set), with a callback and interval \<open>N \<ge> 1\<close>, over
  \<open>n\<close> files calls the callback with the multiples of \<open>N\<close> up to \<open>n\<close>, in
  increasing order, and then once more with \<open>n\<close>. The counts delivered never decrease,
  they increase strictly up to the last but one, and the last one is \<open>n\<close>. The whole
  sequence is strictly increasing exactly when \<open>n\<close> is 0 or not a multiple of \<open>N\<close>: when
  \<open>n\<close> is a positive multiple of \<open>N\<close> the final call repeats the count of the call before.
\<close>

theorem progress_counts_never_decrease:
  assumes "not_cancelled args (length (enumerated folder fs))"
      and "progress_callback args = Some cb"
      and "1 \<le> update_every args"
  shows "\<exists>r. collect_folder_stats_streaming folder args fs = Inr r \<and>
          (let ps = map fst (events r); n = length (enumerated folder fs)
           in ps = filter (\<lambda>m. int m mod update_every args = 0) [1..<Suc n] @ [n] \<and>
              last ps = n \<and> sorted ps \<and> sorted_wrt (<) (butlast ps) \<and>
              (sorted_wrt (<) ps \<longleftrightarrow> n = 0 \<or> int n mod update_every args \<noteq> 0))"
proof -
  let ?n = "length (enumerated folder fs)"
  let ?F = "filter (\<lambda>m. int m mod update_every args = 0) [1..<Suc ?n]"
  have ne: "update_every args \<noteq> 0" using assms(3) by simp
  note E = events_not_cancelled[OF assms(1,2) ne]
  have s: "sorted_wrt (<) ?F" by (rule periodic_sorted)
  have le: "\<forall>x\<in>set ?F. x \<le> ?n" by auto
  have 1: "sorted (?F @ [?n])"
    using s le by (simp add: sorted_append strict_sorted_imp_sorted del: upt_Suc)
  have "(\<forall>x\<in>set ?F. x < ?n) \<longleftrightarrow> ?n \<notin> set ?F"
    using le by (metis le_neq_implies_less less_irrefl)
  also have "\<dots> \<longleftrightarrow> ?n = 0 \<or> int ?n mod update_every args \<noteq> 0"
    by (cases ?n) (simp_all del: upt_Suc)
  finally have 2: "sorted_wrt (<) (?F @ [?n]) \<longleftrightarrow> ?n = 0 \<or> int ?n mod update_every args \<noteq> 0"
    using s by (simp add: sorted_wrt_append del: upt_Suc)
  show ?thesis
    using E 1 2 s by (simp add: Let_def del: upt_Suc)
qed

theorem progress_counts_never_decrease_witness:
  "not_cancelled gui_args (length (enumerated ''/r'' example_tree)) \<and>
   progress_callback gui_args = Some (\<lambda>n. Returns) \<and>
   1 \<le> update_every gui_args \<and>
   (\<exists>r. collect_folder_stats_streaming ''/r'' gui_args example_tree = Inr r \<and>
        map fst (events r) = [1, 2, 3, 4, 4] \<and>
        last (map fst (events r)) = length (enumerated ''/r'' example_tree) \<and>
        sorted (map fst (events r)))"
proof -
  have a: "not_cancelled gui_args (length (enumerated ''/r'' example_tree))" by simp
  have b: "progress_callback gui_args = Some (\<lambda>n. Returns)"
    and c: "1 \<le> update_every gui_args"
    by (simp_all add: gui_args_def example_args_def)
  have u: "update_every gui_args = 1" by (simp add: gui_args_def example_args_def)
  have f: "filter (\<lambda>m. int m mod 1 = 0) [1..<Suc 4] @ [4] = [1, 2, 3, 4, 4::nat]"
    by code_simp
  have l: "length (enumerated ''/r'' example_tree) = 4" by (simp add: enumerated_example)
  show ?thesis
    using progress_counts_never_decrease[OF a b c] a b c
    unfolding Let_def l u f by auto
qed

text \<open>
  Claim C5 as stated has the delivered counts strictly increasing. With interval 1 and a
  single file the callback is called with 1 after the file and with 1 again at the end.
\<close>

theorem final_event_repeats_counterexample:
  "(case collect_folder_stats_streaming ''/r'' example_args one_file_tree of
      Inl e \<Rightarrow> False
    | Inr r \<Rightarrow> map fst (events r) = [1, 1] \<and> \<not> sorted_wrt (<) (map fst (events r)))"
  by code_simp



text \<open>
  Claim C7, as the code has it. For every state, the summary lists the extension rows by
  total bytes descending and the top files by size descending, and each sort is stable:
  rows with equal bytes stay in the order of the table \<^verbatim>\<open>ext_counts\<close>, and top files
  with equal size stay in the order they have in the heap array. The table holds the keys
  in the order in which the scan first saw them.
\<close>

theorem summary_is_sorted_by_size_keeping_ties:
  "(let s = ext_summary_of (snapshot st);
        rows = map (\<lambda>(ext, cnt). (ext, cnt, dict_get (ext_sizes st) ext)) (ext_counts st);
        t = top_files_of (snapshot st)
    in sorted_wrt (\<lambda>a b. snd (snd b) \<le> snd (snd a)) s \<and>
       (\<forall>v. filter (\<lambda>x. snd (snd x) = v) s = filter (\<lambda>x. snd (snd x) = v) rows) \<and>
       sorted_wrt (\<lambda>a b. fst b \<le> fst a) t \<and>
       (\<forall>v. filter (\<lambda>x. fst x = v) t = filter (\<lambda>x. fst x = v) (top_heap st))) \<and>
   (progress_callback args = None \<or> update_every args \<noteq> 0 \<longrightarrow>
      map fst (ext_counts (state_after args xs)) = first_seen (map file_ext xs))"
  by (simp add: Let_def make_ext_summary_def heap_to_list_def sorted_reverse_sorted
        sorted_reverse_stable ext_keys_state_after)

theorem summary_is_sorted_by_size_keeping_ties_witness:
  "(progress_callback example_args = None \<or> update_every example_args \<noteq> 0) \<and>
   map fst (ext_counts (state_after example_args (enumerated ''/r'' tie_ext_tree)))
     = first_seen (map file_ext (enumerated ''/r'' tie_ext_tree)) \<and>
   first_seen (map file_ext (enumerated ''/r'' tie_ext_tree)) = [''.txt'', ''.log'']"
proof -
  have "first_seen (map file_ext (enumerated ''/r'' tie_ext_tree)) = [''.txt'', ''.log'']"
    by code_simp
  then show ?thesis
    using summary_is_sorted_by_size_keeping_ties[of init_state example_args
            "enumerated ''/r'' tie_ext_tree"]
    by (simp add: example_args_def)
qed

text \<open>
  Claim C7 as stated breaks ties between extension rows by key ascending and ties
  between top files by insertion order. The scan of \<^verbatim>\<open>b.txt\<close> then \<^verbatim>\<open>a.log\<close>, 5 bytes
  each, lists \<^verbatim>\<open>.txt\<close> before \<^verbatim>\<open>.log\<close> although \<^verbatim>\<open>.log\<close> is the smaller key, and lists
  \<^verbatim>\<open>/r/a.log\<close> before \<^verbatim>\<open>/r/b.txt\<close> although \<^verbatim>\<open>b.txt\<close> was inserted first.
\<close>

theorem ties_keep_table_and_heap_order_counterexample:
  "enumerated ''/r'' tie_ext_tree = [(''/r'', ''b.txt'', Some 5), (''/r'', ''a.log'', Some 5)] \<and>
   collect_folder_stats_streaming ''/r'' example_args tie_ext_tree =
     Inr \<lparr>terminal = Completed,
          returned = (2, 10, [(''.txt'', 1, 5), (''.log'', 1, 5)],
                      [(5, ''/r/a.log''), (5, ''/r/b.txt'')]),
          events = [(1, None), (2, None), (2, None)]\<rparr> \<and>
   ''.log'' < ''.txt'' \<and>
   \<not> sorted_wrt (\<lambda>a b. snd (snd b) < snd (snd a) \<or> (snd (snd a) = snd (snd b) \<and> fst a \<le> fst b))
         [(''.txt'', 1::nat, 5::int), (''.log'', 1, 5)]"
  by code_simp

text \<open>
  Claim C10, as the code has it. If every subdirectory entry in the tree is a plain
  directory (no symbolic link, no mount point, and none on which the link-or-mount test
  raises), then \<^verbatim>\<open>quick_count_files\<close> gives the \<^verbatim>\<open>total_files\<close> of a scan that is not
  cancelled (no cancel event, or an event that no \<^verbatim>\<open>is_set()\<close> call finds set).
  \<^verbatim>\<open>quick_count_files\<close> does not prune, so the two can differ otherwise: on the tree with
  a mount point it counts 1 file and the scan counts 0.
\<close>

theorem quick_count_matches_scan_on_plain_trees:
  assumes "entries_all (\<lambda>k. k = Plain) fs"
      and "not_cancelled args (length (enumerated p fs))"
      and "progress_callback args = None \<or> update_every args \<noteq> 0"
  shows "(\<exists>r. collect_folder_stats_streaming p args fs = Inr r \<and>
              quick_count_files p fs = total_files_of (returned r)) \<and>
         quick_count_files ''/r'' mount_tree = 1 \<and>
         collect_folder_stats_streaming ''/r'' example_args mount_tree =
           Inr \<lparr>terminal = Completed, returned = (0, 0, [], []), events = [(0, None)]\<rparr>"
  using assms(1) quick_count_walks_into_mounts
  by (simp add: collect_not_cancelled[OF assms(2,3)] total_files_state_after[OF assms(3)]
        quick_count_walk enumerated_def os_walk_plain)

theorem quick_count_matches_scan_on_plain_trees_witness:
  "entries_all (\<lambda>k. k = Plain) nested_tree \<and>
   not_cancelled gui_args (length (enumerated ''/r'' nested_tree)) \<and>
   (progress_callback gui_args = None \<or> update_every gui_args \<noteq> 0) \<and>
   (\<exists>r. collect_folder_stats_streaming ''/r'' gui_args nested_tree = Inr r \<and>
        quick_count_files ''/r'' nested_tree = total_files_of (returned r)) \<and>
   quick_count_files ''/r'' nested_tree = 2"
proof -
  have a: "entries_all (\<lambda>k. k = Plain) nested_tree" by (simp add: nested_tree_def)
  have b: "not_cancelled gui_args (length (enumerated ''/r'' nested_tree))" by simp
  have c: "progress_callback gui_args = None \<or> update_every gui_args \<noteq> 0"
    by (simp add: gui_args_def example_args_def)
  have d: "quick_count_files ''/r'' nested_tree = 2" by code_simp
  show ?thesis
    using quick_count_matches_scan_on_plain_trees[OF a b c] a b c d by blast
qed

text \<open>
  Claim C10 as stated only excludes symbolic links and mount points. The scan also
  prunes an entry on which the test raises (line 115), and \<^verbatim>\<open>quick_count_files\<close> walks
  into it.
\<close>

theorem check_that_raises_prunes_counterexample:
  "entries_all (\<lambda>k. k \<noteq> Symlink \<and> k \<noteq> Mount) check_raises_tree \<and>
   quick_count_files ''/r'' check_raises_tree = 1 \<and>
   collect_folder_stats_streaming ''/r'' example_args check_raises_tree =
     Inr \<lparr>terminal = Completed, returned = (0, 0, [], []), events = [(0, None)]\<rparr>"
  by code_simp

end
